theory Spec2Isabelle
  imports Complex_Main
begin

section \<open>Python values and the exceptions the engine can raise\<close>

text \<open>
  The settling engine of \<^verbatim>\<open>network_settling.py\<close> is embedded as pure functions on an
  explicit engine state. A Python \<^verbatim>\<open>int\<close> is an \<^typ>\<open>int\<close>, a \<^verbatim>\<open>float\<close> is an exact
  \<^typ>\<open>real\<close> (rounding is not modelled), a \<^verbatim>\<open>list\<close> is a list, the dictionary
  \<^verbatim>\<open>probabilities\<close> is a map and the set \<^verbatim>\<open>clamped\<close> is a set. A method that
  mutates \<^verbatim>\<open>self\<close> takes the state and returns the new one; a raised exception is
  the value \<open>Inl e\<close>.
\<close>

datatype error = ZeroDivisionError | KeyError | IndexError | ValueError

fun rbind :: "error + 'a \<Rightarrow> ('a \<Rightarrow> error + 'b) \<Rightarrow> error + 'b" where
  "rbind (Inl e) f = Inl e"
| "rbind (Inr x) f = f x"

text \<open>\<^verbatim>\<open>range(n)\<close>: the integers from 0 up to \<open>n - 1\<close>, none when \<open>n \<le> 0\<close>.\<close>

definition py_range :: "int \<Rightarrow> int list" where
  "py_range n = [0..n - 1]"

text \<open>\<^verbatim>\<open>[x] * n\<close>: \<open>n\<close> copies, the empty list when \<open>n \<le> 0\<close>.\<close>

definition py_repeat :: "'a \<Rightarrow> int \<Rightarrow> 'a list" where
  "py_repeat x n = replicate (nat n) x"

text \<open>The position an index \<open>i\<close> stands for in a list: \<open>i\<close> itself when it is within
  the list, \<open>len(xs) + i\<close> when \<open>i\<close> is negative and no further back than the first
  element; any other index raises \<^verbatim>\<open>IndexError\<close>.\<close>

definition slot :: "'a list \<Rightarrow> int \<Rightarrow> error + nat" where
  "slot xs i =
     (if 0 \<le> i \<and> i < int (length xs) then Inr (nat i)
      else if i < 0 \<and> - int (length xs) \<le> i then Inr (nat (int (length xs) + i))
      else Inl IndexError)"

text \<open>\<^verbatim>\<open>xs[i]\<close> and \<^verbatim>\<open>xs[i] = v\<close>.\<close>

definition py_get :: "'a list \<Rightarrow> int \<Rightarrow> error + 'a" where
  "py_get xs i = rbind (slot xs i) (\<lambda>j. Inr (xs ! j))"

definition py_set :: "'a list \<Rightarrow> int \<Rightarrow> 'a \<Rightarrow> error + 'a list" where
  "py_set xs i v = rbind (slot xs i) (\<lambda>j. Inr (xs[j := v]))"

text \<open>\<^verbatim>\<open>d[k]\<close> raises \<^verbatim>\<open>KeyError\<close> on a missing key.\<close>

definition lookup :: "('k \<rightharpoonup> 'v) \<Rightarrow> 'k \<Rightarrow> error + 'v" where
  "lookup d k = (case d k of None \<Rightarrow> Inl KeyError | Some v \<Rightarrow> Inr v)"

text \<open>\<^verbatim>\<open>a / b\<close> on floats raises \<^verbatim>\<open>ZeroDivisionError\<close> when \<open>b\<close> is zero.\<close>

definition py_div :: "real \<Rightarrow> real \<Rightarrow> error + real" where
  "py_div a b = (if b = 0 then Inl ZeroDivisionError else Inr (a / b))"

text \<open>\<^verbatim>\<open>max(xs)\<close> raises \<^verbatim>\<open>ValueError\<close> on an empty sequence.\<close>

fun py_max :: "real list \<Rightarrow> error + real" where
  "py_max [] = Inl ValueError"
| "py_max (x # xs) = Inr (foldl max x xs)"

text \<open>\<^verbatim>\<open>xs.index(v)\<close>: the first position holding \<open>v\<close>, \<^verbatim>\<open>ValueError\<close> when there is
  none.\<close>

fun py_index :: "real list \<Rightarrow> real \<Rightarrow> error + int" where
  "py_index [] v = Inl ValueError"
| "py_index (x # xs) v =
     (if x = v then Inr 0 else rbind (py_index xs v) (\<lambda>i. Inr (i + 1)))"

section \<open>The engine state\<close>

record engine =
  grid_size :: int
  probabilities :: "int \<times> int \<rightharpoonup> real list"
  clamped :: "(int \<times> int) set"
  iteration :: int
  convergence_threshold :: real
  inhibition_strength :: real
  is_converged :: bool

text \<open>The coordinates visited by the nested loops
  \<^verbatim>\<open>for row in range(grid_size): for col in range(grid_size)\<close>, in the order the
  loops visit them.\<close>

definition grid_cells :: "int \<Rightarrow> (int \<times> int) list" where
  "grid_cells n = concat (map (\<lambda>row. map (\<lambda>col. (row, col)) (py_range n)) (py_range n))"

definition initialize :: "engine \<Rightarrow> error + engine" where
  "initialize s =
     rbind (py_div 1 (real_of_int (grid_size s))) (\<lambda>uniform_prob.
       Inr (s\<lparr>probabilities :=
                 foldl (\<lambda>m cell. m(cell \<mapsto> py_repeat uniform_prob (grid_size s)))
                   (probabilities s) (grid_cells (grid_size s)),
              iteration := 0,
              is_converged := False\<rparr>))"

text \<open>The constructor \<^verbatim>\<open>NetworkSettling.__init__\<close>.\<close>

definition NetworkSettling :: "int \<Rightarrow> error + engine" where
  "NetworkSettling n =
     initialize \<lparr>grid_size = n, probabilities = Map.empty, clamped = {}, iteration = 0,
                 convergence_threshold = 0.001, inhibition_strength = 0.5,
                 is_converged = False\<rparr>"

definition set_clue :: "engine \<Rightarrow> int \<Rightarrow> int \<Rightarrow> int \<Rightarrow> error + engine" where
  "set_clue s row col v =
     rbind (py_set (py_repeat 0 (grid_size s)) (v - 1) 1) (\<lambda>probs.
       Inr (s\<lparr>probabilities := (probabilities s)((row, col) \<mapsto> probs),
              clamped := insert (row, col) (clamped s)\<rparr>))"

definition remove_clue :: "engine \<Rightarrow> int \<Rightarrow> int \<Rightarrow> error + engine" where
  "remove_clue s row col =
     rbind (py_div 1 (real_of_int (grid_size s))) (\<lambda>uniform_prob.
       Inr (s\<lparr>clamped := clamped s - {(row, col)},
              probabilities :=
                (probabilities s)((row, col) \<mapsto> py_repeat uniform_prob (grid_size s))\<rparr>))"

definition is_clamped :: "engine \<Rightarrow> int \<Rightarrow> int \<Rightarrow> bool" where
  "is_clamped s row col \<longleftrightarrow> (row, col) \<in> clamped s"

text \<open>\<^verbatim>\<open>get_most_likely_value\<close> returns a dictionary with the keys \<^verbatim>\<open>'value'\<close> and
  \<^verbatim>\<open>'probability'\<close>.\<close>

record likely =
  likely_value :: int
  likely_probability :: real

definition get_most_likely_value :: "engine \<Rightarrow> int \<Rightarrow> int \<Rightarrow> error + likely" where
  "get_most_likely_value s row col =
     rbind (lookup (probabilities s) (row, col)) (\<lambda>probs.
     rbind (py_max probs) (\<lambda>max_prob.
     rbind (py_index probs max_prob) (\<lambda>max_index.
       Inr \<lparr>likely_value = max_index + 1, likely_probability = max_prob\<rparr>)))"

definition get_probabilities :: "engine \<Rightarrow> int \<Rightarrow> int \<Rightarrow> error + real list" where
  "get_probabilities s row col = lookup (probabilities s) (row, col)"

section \<open>One round of settling\<close>

text \<open>The row loop and the column loop of \<^verbatim>\<open>is_value_impossible\<close> have one shape:
  the loop variable \<open>i\<close> runs over \<^verbatim>\<open>range(grid_size)\<close>, the index \<open>skip\<close> of the
  cell itself is passed over, and \<open>cell i\<close> is the peer looked at (\<open>(row, i)\<close> in the
  row loop, \<open>(i, col)\<close> in the column loop). The loop returns as soon as a clamped peer
  whose most likely value is \<open>v\<close> is found.\<close>

fun peer_clamped_to ::
  "engine \<Rightarrow> (int \<Rightarrow> int \<times> int) \<Rightarrow> int \<Rightarrow> int \<Rightarrow> int list \<Rightarrow> error + bool" where
  "peer_clamped_to s cell skip v [] = Inr False"
| "peer_clamped_to s cell skip v (i # js) =
     (if i = skip then peer_clamped_to s cell skip v js
      else if cell i \<in> clamped s then
        rbind (get_most_likely_value s (fst (cell i)) (snd (cell i))) (\<lambda>res.
          if likely_value res = v then Inr True else peer_clamped_to s cell skip v js)
      else peer_clamped_to s cell skip v js)"

definition is_value_impossible :: "engine \<Rightarrow> int \<Rightarrow> int \<Rightarrow> int \<Rightarrow> error + bool" where
  "is_value_impossible s row col value_idx =
     (let v = value_idx + 1 in
      rbind (peer_clamped_to s (\<lambda>c. (row, c)) col v (py_range (grid_size s))) (\<lambda>found.
        if found then Inr True
        else peer_clamped_to s (\<lambda>r. (r, col)) row v (py_range (grid_size s))))"

text \<open>The two loops of \<^verbatim>\<open>calculate_inhibition\<close>, in the same shape: they add the
  probability every unclamped peer gives to the value and count the peers.\<close>

fun peer_inhibition ::
  "engine \<Rightarrow> (int \<Rightarrow> int \<times> int) \<Rightarrow> int \<Rightarrow> int \<Rightarrow> int list \<Rightarrow> real \<times> int
     \<Rightarrow> error + (real \<times> int)" where
  "peer_inhibition s cell skip value_idx [] acc = Inr acc"
| "peer_inhibition s cell skip value_idx (i # js) (total_inhibition, count) =
     (if i = skip then peer_inhibition s cell skip value_idx js (total_inhibition, count)
      else if cell i \<notin> clamped s then
        rbind (lookup (probabilities s) (cell i)) (\<lambda>probs.
        rbind (py_get probs value_idx) (\<lambda>prob.
          peer_inhibition s cell skip value_idx js (total_inhibition + prob, count + 1)))
      else peer_inhibition s cell skip value_idx js (total_inhibition, count))"

definition calculate_inhibition :: "engine \<Rightarrow> int \<Rightarrow> int \<Rightarrow> int \<Rightarrow> error + real" where
  "calculate_inhibition s row col value_idx =
     rbind (peer_inhibition s (\<lambda>c. (row, c)) col value_idx (py_range (grid_size s)) (0, 0))
       (\<lambda>acc.
     rbind (peer_inhibition s (\<lambda>r. (r, col)) row value_idx (py_range (grid_size s)) acc)
       (\<lambda>(total_inhibition, count).
          Inr (if count > 0 then total_inhibition / real_of_int count else 0)))"

definition normalize :: "engine \<Rightarrow> real list \<Rightarrow> error + real list" where
  "normalize s probs =
     (let total = sum_list probs in
      if total = 0 then
        rbind (py_div 1 (real_of_int (grid_size s))) (\<lambda>u. Inr (py_repeat u (grid_size s)))
      else Inr (map (\<lambda>p. p / total) probs))"

text \<open>The loop over \<^verbatim>\<open>value_idx\<close> of \<^verbatim>\<open>calculate_new_probabilities\<close>; \<open>new_probs\<close>
  starts as a copy of \<open>current_probs\<close> and is updated slot by slot.\<close>

fun update_values ::
  "engine \<Rightarrow> int \<Rightarrow> int \<Rightarrow> real list \<Rightarrow> int list \<Rightarrow> real list \<Rightarrow> error + real list" where
  "update_values s row col current_probs [] new_probs = Inr new_probs"
| "update_values s row col current_probs (value_idx # rest) new_probs =
     rbind (is_value_impossible s row col value_idx) (\<lambda>impossible.
       if impossible then
         rbind (py_set new_probs value_idx 0) (\<lambda>new_probs.
           update_values s row col current_probs rest new_probs)
       else
         rbind (calculate_inhibition s row col value_idx) (\<lambda>inhibition.
         rbind (py_get current_probs value_idx) (\<lambda>cur.
         rbind (py_set new_probs value_idx (cur * (1 - inhibition * inhibition_strength s)))
           (\<lambda>new_probs.
         rbind (py_get new_probs value_idx) (\<lambda>x.
         rbind (py_set new_probs value_idx (max 0 x)) (\<lambda>new_probs.
           update_values s row col current_probs rest new_probs))))))"

definition calculate_new_probabilities :: "engine \<Rightarrow> int \<Rightarrow> int \<Rightarrow> error + real list" where
  "calculate_new_probabilities s row col =
     rbind (lookup (probabilities s) (row, col)) (\<lambda>current_probs.
     rbind (update_values s row col current_probs (py_range (grid_size s)) current_probs)
       (\<lambda>new_probs. normalize s new_probs))"

definition calculate_change :: "real list \<Rightarrow> real list \<Rightarrow> error + real" where
  "calculate_change old_probs new_probs =
     py_max (map (\<lambda>(old, new). \<bar>new - old\<bar>) (zip old_probs new_probs))"

text \<open>The loop of \<^verbatim>\<open>step\<close> over the cells of the grid. It fills the fresh dictionary
  \<open>new_probabilities\<close> and tracks \<open>max_change\<close>; every read is from the old state \<open>s\<close>.\<close>

fun step_cells ::
  "engine \<Rightarrow> (int \<times> int) list \<Rightarrow> (int \<times> int \<rightharpoonup> real list) \<times> real
     \<Rightarrow> error + ((int \<times> int \<rightharpoonup> real list) \<times> real)" where
  "step_cells s [] acc = Inr acc"
| "step_cells s ((row, col) # rest) (new_probabilities, max_change) =
     (if (row, col) \<in> clamped s then
        rbind (lookup (probabilities s) (row, col)) (\<lambda>probs.
          step_cells s rest (new_probabilities((row, col) \<mapsto> probs), max_change))
      else
        rbind (calculate_new_probabilities s row col) (\<lambda>new_probs.
        rbind (lookup (probabilities s) (row, col)) (\<lambda>old_probs.
        rbind (calculate_change old_probs new_probs) (\<lambda>change.
          step_cells s rest
            (new_probabilities((row, col) \<mapsto> new_probs), max max_change change)))))"

text \<open>\<^verbatim>\<open>step\<close> returns the new state together with the value it returns to the
  caller.\<close>

definition step :: "engine \<Rightarrow> error + (engine \<times> real)" where
  "step s =
     (if is_converged s then Inr (s, 0)
      else
        rbind (step_cells s (grid_cells (grid_size s)) (Map.empty, 0))
          (\<lambda>(new_probabilities, max_change).
             Inr (s\<lparr>probabilities := new_probabilities,
                    iteration := iteration s + 1,
                    is_converged := (if max_change < convergence_threshold s then True
                                     else is_converged s)\<rparr>,
                  max_change)))"

text \<open>\<open>k\<close> calls of \<^verbatim>\<open>step\<close> in a row, as a driver makes them.\<close>

fun steps :: "nat \<Rightarrow> engine \<Rightarrow> error + engine" where
  "steps 0 s = Inr s"
| "steps (Suc k) s = rbind (step s) (\<lambda>(s', max_change). steps k s')"

definition reset :: "engine \<Rightarrow> error + engine" where
  "reset s = initialize (s\<lparr>clamped := {}\<rparr>)"

definition set_inhibition_strength :: "engine \<Rightarrow> real \<Rightarrow> engine" where
  "set_inhibition_strength s strength = s\<lparr>inhibition_strength := max 0 (min 1 strength)\<rparr>"

section \<open>Reading out a solution\<close>

text \<open>The inner loops of \<^verbatim>\<open>is_valid_solution\<close>. \<open>seen\<close> is the set \<^verbatim>\<open>values\<close> of the
  source; the result \<open>False\<close> is the early \<^verbatim>\<open>return False\<close>, the result \<open>True\<close> says
  that the loop ran to its end. Only the row pass compares the probability with 0.9.\<close>

fun row_pass :: "engine \<Rightarrow> int \<Rightarrow> int list \<Rightarrow> int set \<Rightarrow> error + bool" where
  "row_pass s row [] seen = Inr True"
| "row_pass s row (col # cols) seen =
     rbind (get_most_likely_value s row col) (\<lambda>result.
       if likely_probability result < 0.9 then Inr False
       else if likely_value result \<in> seen then Inr False
       else row_pass s row cols (insert (likely_value result) seen))"

fun column_pass :: "engine \<Rightarrow> int \<Rightarrow> int list \<Rightarrow> int set \<Rightarrow> error + bool" where
  "column_pass s col [] seen = Inr True"
| "column_pass s col (row # rows) seen =
     rbind (get_most_likely_value s row col) (\<lambda>result.
       if likely_value result \<in> seen then Inr False
       else column_pass s col rows (insert (likely_value result) seen))"

text \<open>The outer loops: the method returns \<open>False\<close> as soon as an inner loop does.\<close>

fun every_line :: "(int \<Rightarrow> error + bool) \<Rightarrow> int list \<Rightarrow> error + bool" where
  "every_line inner [] = Inr True"
| "every_line inner (i # js) =
     rbind (inner i) (\<lambda>ok. if ok then every_line inner js else Inr False)"

definition is_valid_solution :: "engine \<Rightarrow> error + bool" where
  "is_valid_solution s =
     rbind (every_line (\<lambda>row. row_pass s row (py_range (grid_size s)) {})
              (py_range (grid_size s))) (\<lambda>rows_ok.
       if rows_ok then
         every_line (\<lambda>col. column_pass s col (py_range (grid_size s)) {})
           (py_range (grid_size s))
       else Inr False)"

text \<open>A list built by a loop whose body can raise: the first exception ends it.\<close>

fun collect :: "(error + 'a) list \<Rightarrow> error + 'a list" where
  "collect [] = Inr []"
| "collect (m # ms) = rbind m (\<lambda>x. rbind (collect ms) (\<lambda>xs. Inr (x # xs)))"

definition get_grid :: "engine \<Rightarrow> error + int list list" where
  "get_grid s =
     collect (map (\<lambda>row.
        collect (map (\<lambda>col.
           rbind (get_most_likely_value s row col) (\<lambda>result. Inr (likely_value result)))
          (py_range (grid_size s))))
       (py_range (grid_size s)))"

section \<open>The functions the host calls\<close>

text \<open>\<^verbatim>\<open>to_json\<close> builds the dictionary \<^verbatim>\<open>state\<close> and hands it to \<^verbatim>\<open>json.dumps\<close>. The
  model stops at the dictionary: a \<open>snapshot\<close> holds its six entries, and the text that
  \<^verbatim>\<open>json.dumps\<close> makes of it is not modelled.\<close>

record snapshot =
  snapshot_grid_size :: int
  snapshot_iteration :: int
  snapshot_is_converged :: bool
  snapshot_probabilities :: "int \<times> int \<rightharpoonup> real list"
  snapshot_clamped :: "(int \<times> int) set"
  snapshot_grid :: "int list list"

definition to_json :: "engine \<Rightarrow> error + snapshot" where
  "to_json s =
     rbind (get_grid s) (\<lambda>grid.
       Inr \<lparr>snapshot_grid_size = grid_size s, snapshot_iteration = iteration s,
            snapshot_is_converged = is_converged s,
            snapshot_probabilities = probabilities s,
            snapshot_clamped = clamped s, snapshot_grid = grid\<rparr>)"

text \<open>What a module-level function returns: \<open>Error_reply msg\<close> is
  \<^verbatim>\<open>json.dumps({'error': msg})\<close>, \<open>State_reply\<close> is the engine's \<^verbatim>\<open>to_json()\<close>, and
  \<open>Step_reply\<close> is that object with the entry \<^verbatim>\<open>max_change\<close> added.\<close>

datatype reply = Error_reply string | State_reply snapshot | Step_reply snapshot real

text \<open>The module-level functions read and write the global \<^verbatim>\<open>_network\<close>, which is
  \<^verbatim>\<open>None\<close> until \<^verbatim>\<open>create_network\<close> has run. Each takes the global and returns what
  the call returns (or raises) together with the global afterwards. Where the engine's
  method raises, the global keeps what the method had already changed.\<close>

definition create_network ::
  "engine option \<Rightarrow> int \<Rightarrow> (error + reply) \<times> engine option" where
  "create_network network n =
     (case NetworkSettling n of
        Inl e \<Rightarrow> (Inl e, network)
      | Inr s \<Rightarrow> (rbind (to_json s) (\<lambda>j. Inr (State_reply j)), Some s))"

definition set_clue_call ::
  "engine option \<Rightarrow> int \<Rightarrow> int \<Rightarrow> int \<Rightarrow> (error + reply) \<times> engine option" where
  "set_clue_call network row col v =
     (case network of
        None \<Rightarrow> (Inr (Error_reply ''Network not initialized''), None)
      | Some s \<Rightarrow>
          (case set_clue s row col v of
             Inl e \<Rightarrow> (Inl e, Some s)
           | Inr s' \<Rightarrow> (rbind (to_json s') (\<lambda>j. Inr (State_reply j)), Some s')))"

definition remove_clue_call ::
  "engine option \<Rightarrow> int \<Rightarrow> int \<Rightarrow> (error + reply) \<times> engine option" where
  "remove_clue_call network row col =
     (case network of
        None \<Rightarrow> (Inr (Error_reply ''Network not initialized''), None)
      | Some s \<Rightarrow>
          (case remove_clue s row col of
             Inl e \<Rightarrow> (Inl e, Some (s\<lparr>clamped := clamped s - {(row, col)}\<rparr>))
           | Inr s' \<Rightarrow> (rbind (to_json s') (\<lambda>j. Inr (State_reply j)), Some s')))"

definition step_call :: "engine option \<Rightarrow> (error + reply) \<times> engine option" where
  "step_call network =
     (case network of
        None \<Rightarrow> (Inr (Error_reply ''Network not initialized''), None)
      | Some s \<Rightarrow>
          (case step s of
             Inl e \<Rightarrow> (Inl e, Some s)
           | Inr (s', max_change) \<Rightarrow>
               (rbind (to_json s') (\<lambda>j. Inr (Step_reply j max_change)), Some s')))"

definition reset_call :: "engine option \<Rightarrow> (error + reply) \<times> engine option" where
  "reset_call network =
     (case network of
        None \<Rightarrow> (Inr (Error_reply ''Network not initialized''), None)
      | Some s \<Rightarrow>
          (case reset s of
             Inl e \<Rightarrow> (Inl e, Some (s\<lparr>clamped := {}\<rparr>))
           | Inr s' \<Rightarrow> (rbind (to_json s') (\<lambda>j. Inr (State_reply j)), Some s')))"

definition set_inhibition ::
  "engine option \<Rightarrow> real \<Rightarrow> (error + reply) \<times> engine option" where
  "set_inhibition network strength =
     (case network of
        None \<Rightarrow> (Inr (Error_reply ''Network not initialized''), None)
      | Some s \<Rightarrow>
          (let s' = set_inhibition_strength s strength
           in (rbind (to_json s') (\<lambda>j. Inr (State_reply j)), Some s')))"

definition get_state :: "engine option \<Rightarrow> (error + reply) \<times> engine option" where
  "get_state network =
     (case network of
        None \<Rightarrow> (Inr (Error_reply ''Network not initialized''), None)
      | Some s \<Rightarrow> (rbind (to_json s) (\<lambda>j. Inr (State_reply j)), Some s))"

section \<open>Notions the properties are stated with\<close>

text \<open>The uniform distribution over \<open>n\<close> values.\<close>

definition uniform :: "int \<Rightarrow> real list" where
  "uniform n = py_repeat (1 / real_of_int n) n"

text \<open>A distribution is normalized when its entries are non-negative and sum to one.\<close>

definition normalized :: "real list \<Rightarrow> bool" where
  "normalized d \<longleftrightarrow> (\<forall>p\<in>set d. 0 \<le> p) \<and> sum_list d = 1"

text \<open>A state is well formed when every cell of the grid has a distribution with one
  slot per value. The methods raise nothing on such a state.\<close>

definition well_formed :: "engine \<Rightarrow> bool" where
  "well_formed s \<longleftrightarrow>
     (\<forall>cell\<in>set (grid_cells (grid_size s)).
        case probabilities s cell of None \<Rightarrow> False
        | Some d \<Rightarrow> int (length d) = grid_size s)"

text \<open>The first (lowest) index at which a distribution takes its maximum, the value
  (one more than the index) and the probability that \<^verbatim>\<open>get_most_likely_value\<close> reports
  for a cell.\<close>

definition most_likely_index :: "real list \<Rightarrow> nat" where
  "most_likely_index d = length (takeWhile (\<lambda>p. p \<noteq> Max (set d)) d)"

definition most_likely_value :: "engine \<Rightarrow> int \<times> int \<Rightarrow> int" where
  "most_likely_value s cell = int (most_likely_index (the (probabilities s cell))) + 1"

definition most_likely_probability :: "engine \<Rightarrow> int \<times> int \<Rightarrow> real" where
  "most_likely_probability s cell = Max (set (the (probabilities s cell)))"

text \<open>The hard constraint: the value of slot \<open>value_idx\<close> is impossible for a cell when
  another cell of its row or of its column is clamped and has that value.\<close>

definition impossible :: "engine \<Rightarrow> int \<Rightarrow> int \<Rightarrow> int \<Rightarrow> bool" where
  "impossible s row col value_idx \<longleftrightarrow>
     (\<exists>c\<in>set (py_range (grid_size s)).
         c \<noteq> col \<and> (row, c) \<in> clamped s \<and> most_likely_value s (row, c) = value_idx + 1) \<or>
     (\<exists>r\<in>set (py_range (grid_size s)).
         r \<noteq> row \<and> (r, col) \<in> clamped s \<and> most_likely_value s (r, col) = value_idx + 1)"

text \<open>The validity check as the specification words it: in every row the most likely
  values are pairwise distinct and every most likely probability is at least 0.9, and in
  every column the most likely values are pairwise distinct.\<close>

definition valid_solution_spec :: "engine \<Rightarrow> bool" where
  "valid_solution_spec s \<longleftrightarrow>
     (\<forall>row\<in>set (py_range (grid_size s)).
        distinct (map (\<lambda>col. most_likely_value s (row, col)) (py_range (grid_size s))) \<and>
        (\<forall>col\<in>set (py_range (grid_size s)). 0.9 \<le> most_likely_probability s (row, col))) \<and>
     (\<forall>col\<in>set (py_range (grid_size s)).
        distinct (map (\<lambda>row. most_likely_value s (row, col)) (py_range (grid_size s))))"

text \<open>The states an engine constructed with grid size \<open>n\<close> can be in: the constructor's
  result, and every state a method call that returns leads to from such a state.\<close>

inductive reachable :: "int \<Rightarrow> engine \<Rightarrow> bool" for n :: int where
  constructed: "NetworkSettling n = Inr s \<Longrightarrow> reachable n s"
| after_initialize: "reachable n s \<Longrightarrow> initialize s = Inr s' \<Longrightarrow> reachable n s'"
| after_reset: "reachable n s \<Longrightarrow> reset s = Inr s' \<Longrightarrow> reachable n s'"
| after_set_clue: "reachable n s \<Longrightarrow> set_clue s row col v = Inr s' \<Longrightarrow> reachable n s'"
| after_remove_clue: "reachable n s \<Longrightarrow> remove_clue s row col = Inr s' \<Longrightarrow> reachable n s'"
| after_set_inhibition_strength:
    "reachable n s \<Longrightarrow> reachable n (set_inhibition_strength s strength)"
| after_step: "reachable n s \<Longrightarrow> step s = Inr (s', max_change) \<Longrightarrow> reachable n s'"

text \<open>What holds of every state an engine with a positive grid size can reach: the
  state is well formed, and every stored distribution has one slot per value and is
  normalized.\<close>

definition invariant :: "int \<Rightarrow> engine \<Rightarrow> bool" where
  "invariant n s \<longleftrightarrow> grid_size s = n \<and> well_formed s \<and>
     (\<forall>cell d. probabilities s cell = Some d \<longrightarrow> int (length d) = n \<and> normalized d)"

section \<open>Facts about the Python operations and the loops\<close>

lemma rbind_Inr_iff: "rbind m f = Inr y \<longleftrightarrow> (\<exists>x. m = Inr x \<and> f x = Inr y)"
  by (cases m) auto

lemma in_py_range: "i \<in> set (py_range n) \<longleftrightarrow> 0 \<le> i \<and> i < n"
  by (auto simp: py_range_def)

lemma in_grid_cells: "(r, c) \<in> set (grid_cells n) \<longleftrightarrow> 0 \<le> r \<and> r < n \<and> 0 \<le> c \<and> c < n"
  by (auto simp: grid_cells_def in_py_range image_iff)

lemma py_get_in: "0 \<le> i \<Longrightarrow> i < int (length xs) \<Longrightarrow> py_get xs i = Inr (xs ! nat i)"
  by (simp add: py_get_def slot_def)

lemma py_set_in: "0 \<le> i \<Longrightarrow> i < int (length xs) \<Longrightarrow> py_set xs i v = Inr (xs[nat i := v])"
  by (simp add: py_set_def slot_def)

lemma py_max_eq: "d \<noteq> [] \<Longrightarrow> py_max d = Inr (Max (set d))"
proof (cases d)
  case Nil
  assume "d \<noteq> []"
  with Nil show ?thesis by simp
next
  case (Cons x xs)
  have "foldl max x xs = fold max xs x"
    by (simp add: foldl_conv_fold max.commute)
  also have "\<dots> = Max (set (x # xs))"
    by (rule Max.set_eq_fold [symmetric])
  finally show ?thesis
    using Cons by (simp del: set_simps)
qed

lemma py_index_eq:
  "v \<in> set d \<Longrightarrow> py_index d v = Inr (int (length (takeWhile (\<lambda>p. p \<noteq> v) d)))"
  by (induction d) auto

lemma get_most_likely_value_eq:
  assumes "probabilities s (row, col) = Some d" and "d \<noteq> []"
  shows "get_most_likely_value s row col =
           Inr \<lparr>likely_value = int (most_likely_index d) + 1,
                likely_probability = Max (set d)\<rparr>"
proof -
  have "Max (set d) \<in> set d"
    using assms(2) by (intro Max_in) auto
  then show ?thesis
    using assms
    by (simp add: get_most_likely_value_def lookup_def py_max_eq py_index_eq
        most_likely_index_def)
qed

lemma well_formedD:
  assumes "well_formed s" and "cell \<in> set (grid_cells (grid_size s))"
  obtains d where "probabilities s cell = Some d" and "int (length d) = grid_size s"
  using assms by (auto simp: well_formed_def split: option.splits)

lemma peer_clamped_to_eq:
  assumes "\<forall>i\<in>set js. i \<noteq> skip \<longrightarrow> cell i \<in> clamped s \<longrightarrow>
             (\<exists>d. probabilities s (cell i) = Some d \<and> d \<noteq> [])"
  shows "peer_clamped_to s cell skip v js =
           Inr (\<exists>i\<in>set js. i \<noteq> skip \<and> cell i \<in> clamped s \<and> most_likely_value s (cell i) = v)"
  using assms
proof (induction js)
  case Nil
  then show ?case by simp
next
  case (Cons i js)
  then have IH: "peer_clamped_to s cell skip v js =
           Inr (\<exists>i\<in>set js. i \<noteq> skip \<and> cell i \<in> clamped s \<and> most_likely_value s (cell i) = v)"
    by simp
  show ?case
  proof (cases "i \<noteq> skip \<and> cell i \<in> clamped s")
    case True
    with Cons.prems obtain d where d: "probabilities s (cell i) = Some d" "d \<noteq> []"
      by auto
    then have "get_most_likely_value s (fst (cell i)) (snd (cell i)) =
           Inr \<lparr>likely_value = int (most_likely_index d) + 1,
                likely_probability = Max (set d)\<rparr>"
      by (intro get_most_likely_value_eq) auto
    then show ?thesis
      using True d IH by (auto simp: most_likely_value_def)
  next
    case False
    then show ?thesis using IH by auto
  qed
qed

lemma is_value_impossible_eq:
  assumes "well_formed s" and "(row, col) \<in> set (grid_cells (grid_size s))"
  shows "is_value_impossible s row col value_idx = Inr (impossible s row col value_idx)"
proof -
  have n: "0 \<le> row" "row < grid_size s" "0 \<le> col" "col < grid_size s"
    using assms(2) by (auto simp: in_grid_cells)
  have nonempty: "\<exists>d. probabilities s cell = Some d \<and> d \<noteq> []"
    if "cell \<in> set (grid_cells (grid_size s))" for cell
  proof -
    from assms(1) that obtain d where "probabilities s cell = Some d" "int (length d) = grid_size s"
      by (rule well_formedD)
    with n show ?thesis by auto
  qed
  have r: "peer_clamped_to s (\<lambda>c. (row, c)) col v (py_range (grid_size s)) =
       Inr (\<exists>c\<in>set (py_range (grid_size s)). c \<noteq> col \<and> (row, c) \<in> clamped s \<and> most_likely_value s (row, c) = v)" for v
    by (rule peer_clamped_to_eq) (auto simp: in_py_range n in_grid_cells intro!: nonempty)
  have c: "peer_clamped_to s (\<lambda>r. (r, col)) row v (py_range (grid_size s)) =
       Inr (\<exists>r\<in>set (py_range (grid_size s)). r \<noteq> row \<and> (r, col) \<in> clamped s \<and> most_likely_value s (r, col) = v)" for v
    by (rule peer_clamped_to_eq) (auto simp: in_py_range n in_grid_cells intro!: nonempty)
  show ?thesis
    by (auto simp: is_value_impossible_def Let_def r c impossible_def)
qed

lemma peer_inhibition_ok:
  assumes "\<forall>i\<in>set js. i \<noteq> skip \<longrightarrow> cell i \<notin> clamped s \<longrightarrow>
             (\<exists>d. probabilities s (cell i) = Some d \<and> value_idx < int (length d))"
    and "0 \<le> value_idx"
  shows "\<exists>acc'. peer_inhibition s cell skip value_idx js acc = Inr acc'"
  using assms(1)
proof (induction js arbitrary: acc)
  case Nil
  then show ?case by simp
next
  case (Cons i js)
  obtain t c where acc: "acc = (t, c)" by (cases acc)
  show ?case
  proof (cases "i \<noteq> skip \<and> cell i \<notin> clamped s")
    case True
    with Cons.prems obtain d where d: "probabilities s (cell i) = Some d" "value_idx < int (length d)"
      by auto
    have "\<exists>acc'. peer_inhibition s cell skip value_idx js (t + d ! nat value_idx, c + 1) = Inr acc'"
      using Cons.prems by (intro Cons.IH) auto
    then show ?thesis
      using True d assms(2) by (simp add: acc lookup_def py_get_in)
  next
    case False
    have "\<exists>acc'. peer_inhibition s cell skip value_idx js (t, c) = Inr acc'"
      using Cons.prems by (intro Cons.IH) auto
    with False show ?thesis by (auto simp: acc)
  qed
qed

lemma calculate_inhibition_ok:
  assumes "well_formed s" and "(row, col) \<in> set (grid_cells (grid_size s))"
    and "value_idx \<in> set (py_range (grid_size s))"
  shows "\<exists>x. calculate_inhibition s row col value_idx = Inr x"
proof -
  have n: "0 \<le> row" "row < grid_size s" "0 \<le> col" "col < grid_size s"
    using assms(2) by (auto simp: in_grid_cells)
  have v: "0 \<le> value_idx" "value_idx < grid_size s"
    using assms(3) by (auto simp: in_py_range)
  have slot: "\<exists>d. probabilities s cell = Some d \<and> value_idx < int (length d)"
    if "cell \<in> set (grid_cells (grid_size s))" for cell
  proof -
    from assms(1) that obtain d where "probabilities s cell = Some d" "int (length d) = grid_size s"
      by (rule well_formedD)
    with v show ?thesis by auto
  qed
  have row_peers: "\<forall>i\<in>set (py_range (grid_size s)). i \<noteq> col \<longrightarrow> (row, i) \<notin> clamped s \<longrightarrow>
             (\<exists>d. probabilities s (row, i) = Some d \<and> value_idx < int (length d))"
    by (auto simp: in_py_range n in_grid_cells intro!: slot)
  have col_peers: "\<forall>i\<in>set (py_range (grid_size s)). i \<noteq> row \<longrightarrow> (i, col) \<notin> clamped s \<longrightarrow>
             (\<exists>d. probabilities s (i, col) = Some d \<and> value_idx < int (length d))"
    by (auto simp: in_py_range n in_grid_cells intro!: slot)
  from peer_inhibition_ok [OF row_peers v(1)]
  obtain acc1 where a1: "peer_inhibition s (\<lambda>c. (row, c)) col value_idx (py_range (grid_size s)) (0, 0) = Inr acc1"
    by blast
  from peer_inhibition_ok [OF col_peers v(1)]
  obtain acc2 where a2: "peer_inhibition s (\<lambda>r. (r, col)) row value_idx (py_range (grid_size s)) acc1 = Inr acc2"
    by blast
  show ?thesis
    by (cases acc2) (simp add: calculate_inhibition_def a1 a2)
qed

lemma length_uniform: "length (uniform n) = nat n"
  by (simp add: uniform_def py_repeat_def)

lemma normalized_uniform: "0 < n \<Longrightarrow> normalized (uniform n)"
  by (simp add: normalized_def uniform_def py_repeat_def sum_list_replicate)

lemma sum_list_divide: "sum_list (map (\<lambda>p. p / t) u) = sum_list u / (t::real)"
  by (induction u) (simp_all add: add_divide_distrib)

lemma normalized_scaled:
  assumes "\<forall>p\<in>set u. 0 \<le> p" and "sum_list u \<noteq> 0"
  shows "normalized (map (\<lambda>p. p / sum_list u) u)"
proof -
  have "0 \<le> sum_list u"
    using assms(1) by (simp add: sum_list_nonneg)
  then show ?thesis
    using assms by (auto simp: normalized_def sum_list_divide)
qed

lemma normalize_eq:
  assumes "grid_size s \<noteq> 0"
  shows "normalize s u =
           Inr (if sum_list u = 0 then uniform (grid_size s) else map (\<lambda>p. p / sum_list u) u)"
  using assms by (simp add: normalize_def py_div_def uniform_def Let_def)

lemma update_values_ok:
  assumes wf: "well_formed s" and cell: "(row, col) \<in> set (grid_cells (grid_size s))"
    and len: "int (length cur) = grid_size s"
  shows "set idxs \<subseteq> set (py_range (grid_size s)) \<Longrightarrow> length new = length cur \<Longrightarrow>
     \<exists>u. update_values s row col cur idxs new = Inr u \<and> length u = length cur \<and>
       (\<forall>j\<in>set idxs. 0 \<le> u ! nat j \<and> (impossible s row col j \<longrightarrow> u ! nat j = 0)) \<and>
       (\<forall>k. k \<notin> nat ` set idxs \<longrightarrow> u ! k = new ! k)"
proof (induction idxs arbitrary: new)
  case Nil
  then show ?case by simp
next
  case (Cons i rest)
  have i: "0 \<le> i" "i < int (length new)" "nat i < length new"
    using Cons.prems len by (auto simp: in_py_range)
  have rest: "set rest \<subseteq> set (py_range (grid_size s))"
    using Cons.prems by simp
  obtain x where x: "calculate_inhibition s row col i = Inr x"
    using calculate_inhibition_ok [OF wf cell, of i] Cons.prems by auto
  define a where "a = (if impossible s row col i then 0
                       else max 0 (cur ! nat i * (1 - x * inhibition_strength s)))"
  define new' where "new' = new[nat i := a]"
  have unfold: "update_values s row col cur (i # rest) new = update_values s row col cur rest new'"
    using i Cons.prems(2)
    by (simp add: is_value_impossible_eq [OF wf cell] x py_set_in py_get_in new'_def a_def)
  have "length new' = length cur"
    using Cons.prems by (simp add: new'_def)
  from Cons.IH [OF rest this] obtain u where u:
    "update_values s row col cur rest new' = Inr u" "length u = length cur"
    "\<forall>j\<in>set rest. 0 \<le> u ! nat j \<and> (impossible s row col j \<longrightarrow> u ! nat j = 0)"
    "\<forall>k. k \<notin> nat ` set rest \<longrightarrow> u ! k = new' ! k"
    by blast
  have a: "0 \<le> a" "impossible s row col i \<longrightarrow> a = 0"
    by (auto simp: a_def)
  have head: "0 \<le> u ! nat i \<and> (impossible s row col i \<longrightarrow> u ! nat i = 0)"
  proof (cases "i \<in> set rest")
    case True
    with u(3) show ?thesis by blast
  next
    case False
    have "nat i \<notin> nat ` set rest"
    proof
      assume "nat i \<in> nat ` set rest"
      then obtain j where j: "j \<in> set rest" "nat i = nat j" by auto
      with rest have "0 \<le> j" by (auto simp: in_py_range)
      with j(2) i(1) have "i = j" by arith
      with j(1) False show False by simp
    qed
    with u(4) have "u ! nat i = new' ! nat i" by blast
    also have "\<dots> = a" using i by (simp add: new'_def)
    finally show ?thesis using a by simp
  qed
  have others: "\<forall>k. k \<notin> nat ` set (i # rest) \<longrightarrow> u ! k = new ! k"
    using u(4) by (auto simp: new'_def)
  show ?case
    unfolding unfold using u(1,2,3) head others by auto
qed

lemma calculate_new_probabilities_ok:
  assumes wf: "well_formed s" and cell: "(row, col) \<in> set (grid_cells (grid_size s))"
  shows "\<exists>cur u. probabilities s (row, col) = Some cur \<and>
           update_values s row col cur (py_range (grid_size s)) cur = Inr u \<and>
           int (length u) = grid_size s \<and>
           (\<forall>p\<in>set u. 0 \<le> p) \<and>
           (\<forall>j\<in>set (py_range (grid_size s)). impossible s row col j \<longrightarrow> u ! nat j = 0) \<and>
           calculate_new_probabilities s row col =
             Inr (if sum_list u = 0 then uniform (grid_size s)
                  else map (\<lambda>p. p / sum_list u) u)"
proof -
  have n: "0 < grid_size s"
    using cell by (auto simp: in_grid_cells)
  from wf cell obtain cur where cur: "probabilities s (row, col) = Some cur"
      "int (length cur) = grid_size s"
    by (rule well_formedD)
  from update_values_ok [OF wf cell cur(2), of "py_range (grid_size s)" cur]
  obtain u where u: "update_values s row col cur (py_range (grid_size s)) cur = Inr u"
     "length u = length cur"
     "\<forall>j\<in>set (py_range (grid_size s)). 0 \<le> u ! nat j \<and> (impossible s row col j \<longrightarrow> u ! nat j = 0)"
    by auto
  have nonneg: "\<forall>p\<in>set u. 0 \<le> p"
  proof
    fix p assume "p \<in> set u"
    then obtain k where k: "k < length u" "p = u ! k"
      by (auto simp: in_set_conv_nth)
    then have "int k \<in> set (py_range (grid_size s))"
      using u(2) cur(2) by (auto simp: in_py_range)
    with u(3) have "0 \<le> u ! nat (int k)" by blast
    with k show "0 \<le> p" by simp
  qed
  have "calculate_new_probabilities s row col =
             Inr (if sum_list u = 0 then uniform (grid_size s)
                  else map (\<lambda>p. p / sum_list u) u)"
    using n by (simp add: calculate_new_probabilities_def lookup_def cur u(1) normalize_eq)
  then show ?thesis
    using cur u nonneg by auto
qed

lemma calculate_new_probabilities_normalized:
  assumes wf: "well_formed s" and cell: "(row, col) \<in> set (grid_cells (grid_size s))"
  shows "\<exists>d. calculate_new_probabilities s row col = Inr d \<and>
           int (length d) = grid_size s \<and> normalized d"
proof -
  have n: "0 < grid_size s"
    using cell by (auto simp: in_grid_cells)
  from calculate_new_probabilities_ok [OF wf cell] obtain u where u:
    "int (length u) = grid_size s" "\<forall>p\<in>set u. 0 \<le> p"
    "calculate_new_probabilities s row col =
             Inr (if sum_list u = 0 then uniform (grid_size s)
                  else map (\<lambda>p. p / sum_list u) u)"
    by blast
  show ?thesis
  proof (cases "sum_list u = 0")
    case True
    then show ?thesis
      using u n by (simp add: length_uniform normalized_uniform)
  next
    case False
    then show ?thesis
      using u by (simp add: normalized_scaled)
  qed
qed

lemma calculate_change_ok:
  assumes "old_probs \<noteq> []" and "new_probs \<noteq> []"
  shows "\<exists>change. calculate_change old_probs new_probs = Inr change"
proof -
  obtain x xs y ys where "old_probs = x # xs" "new_probs = y # ys"
    using assms by (cases old_probs; cases new_probs) auto
  then show ?thesis
    by (simp add: calculate_change_def)
qed

lemma step_cells_ok:
  assumes wf: "well_formed s"
  shows "set cs \<subseteq> set (grid_cells (grid_size s)) \<Longrightarrow>
     \<exists>m' mc'. step_cells s cs (m, mc) = Inr (m', mc') \<and>
       (\<forall>k. k \<notin> set cs \<longrightarrow> m' k = m k) \<and>
       (\<forall>k\<in>set cs. k \<in> clamped s \<longrightarrow> m' k = probabilities s k) \<and>
       (\<forall>k\<in>set cs. k \<notin> clamped s \<longrightarrow>
           (\<exists>d. calculate_new_probabilities s (fst k) (snd k) = Inr d \<and> m' k = Some d))"
proof (induction cs arbitrary: m mc)
  case Nil
  then show ?case by simp
next
  case (Cons k cs)
  obtain row col where k: "k = (row, col)" by (cases k)
  have cell: "(row, col) \<in> set (grid_cells (grid_size s))"
    and rest: "set cs \<subseteq> set (grid_cells (grid_size s))"
    using Cons.prems k by auto
  have n: "0 < grid_size s"
    using cell by (auto simp: in_grid_cells)
  from wf cell obtain old where old: "probabilities s (row, col) = Some old"
      "int (length old) = grid_size s"
    by (rule well_formedD)
  from calculate_new_probabilities_normalized [OF wf cell] obtain d where
    d: "calculate_new_probabilities s row col = Inr d" "int (length d) = grid_size s"
    by blast
  have "old \<noteq> []" "d \<noteq> []"
    using old d n by auto
  then obtain change where change: "calculate_change old d = Inr change"
    using calculate_change_ok by blast
  define m1 mc1 where "m1 = (if k \<in> clamped s then m(k \<mapsto> old) else m(k \<mapsto> d))"
    and "mc1 = (if k \<in> clamped s then mc else max mc change)"
  have unfold: "step_cells s (k # cs) (m, mc) = step_cells s cs (m1, mc1)"
    by (simp add: k lookup_def old d change m1_def mc1_def)
  from Cons.IH [OF rest, of m1 mc1] obtain m' mc' where r:
    "step_cells s cs (m1, mc1) = Inr (m', mc')"
    "\<forall>j. j \<notin> set cs \<longrightarrow> m' j = m1 j"
    "\<forall>j\<in>set cs. j \<in> clamped s \<longrightarrow> m' j = probabilities s j"
    "\<forall>j\<in>set cs. j \<notin> clamped s \<longrightarrow>
           (\<exists>d. calculate_new_probabilities s (fst j) (snd j) = Inr d \<and> m' j = Some d)"
    by blast
  have head1: "k \<in> clamped s \<longrightarrow> m' k = probabilities s k"
    using r(2,3) old by (cases "k \<in> set cs") (auto simp: m1_def k)
  have head2: "k \<notin> clamped s \<longrightarrow>
           (\<exists>d. calculate_new_probabilities s (fst k) (snd k) = Inr d \<and> m' k = Some d)"
    using r(2,4) d by (cases "k \<in> set cs") (auto simp: m1_def k)
  have others: "\<forall>j. j \<notin> set (k # cs) \<longrightarrow> m' j = m j"
    using r(2) by (auto simp: m1_def)
  show ?case
    unfolding unfold using r(1,3,4) head1 head2 others by auto
qed

lemma step_ok:
  assumes wf: "well_formed s" and "\<not> is_converged s"
  shows "\<exists>m' mc. step s = Inr (s\<lparr>probabilities := m', iteration := iteration s + 1,
                                  is_converged := mc < convergence_threshold s\<rparr>, mc) \<and>
       (\<forall>k. k \<notin> set (grid_cells (grid_size s)) \<longrightarrow> m' k = None) \<and>
       (\<forall>k\<in>set (grid_cells (grid_size s)). k \<in> clamped s \<longrightarrow> m' k = probabilities s k) \<and>
       (\<forall>k\<in>set (grid_cells (grid_size s)). k \<notin> clamped s \<longrightarrow>
           (\<exists>d. calculate_new_probabilities s (fst k) (snd k) = Inr d \<and> m' k = Some d))"
proof -
  from step_cells_ok [OF wf, of "grid_cells (grid_size s)" Map.empty 0]
  obtain m' mc where r:
    "step_cells s (grid_cells (grid_size s)) (Map.empty, 0) = Inr (m', mc)"
    "\<forall>k. k \<notin> set (grid_cells (grid_size s)) \<longrightarrow> m' k = None"
    "\<forall>k\<in>set (grid_cells (grid_size s)). k \<in> clamped s \<longrightarrow> m' k = probabilities s k"
    "\<forall>k\<in>set (grid_cells (grid_size s)). k \<notin> clamped s \<longrightarrow>
           (\<exists>d. calculate_new_probabilities s (fst k) (snd k) = Inr d \<and> m' k = Some d)"
    by auto
  have "step s = Inr (s\<lparr>probabilities := m', iteration := iteration s + 1,
                                  is_converged := mc < convergence_threshold s\<rparr>, mc)"
    using assms(2) by (simp add: step_def r(1))
  with r(2,3,4) show ?thesis by blast
qed

section \<open>Facts about whole methods\<close>

lemma well_formed_iff:
  "well_formed s \<longleftrightarrow>
     (\<forall>cell\<in>set (grid_cells (grid_size s)).
        \<exists>d. probabilities s cell = Some d \<and> int (length d) = grid_size s)"
  by (auto simp: well_formed_def split: option.splits)

lemma foldl_store:
  "foldl (\<lambda>m cell. m(cell \<mapsto> u)) m cs = (\<lambda>k. if k \<in> set cs then Some u else m k)"
  by (induction cs arbitrary: m) (auto simp: fun_eq_iff)

lemma initialize_eq:
  assumes "grid_size s \<noteq> 0"
  shows "initialize s =
           Inr (s\<lparr>probabilities :=
                     (\<lambda>cell. if cell \<in> set (grid_cells (grid_size s))
                             then Some (uniform (grid_size s)) else probabilities s cell),
                  iteration := 0, is_converged := False\<rparr>)"
  using assms by (simp add: initialize_def py_div_def foldl_store uniform_def cong: if_cong)

lemma initialize_Inr_iff: "(\<exists>s'. initialize s = Inr s') \<longleftrightarrow> grid_size s \<noteq> 0"
  by (auto simp: initialize_def py_div_def)

lemma set_clue_Inr:
  assumes "set_clue s row col v = Inr s'"
  obtains j where "j < nat (grid_size s)"
    and "s' = s\<lparr>probabilities :=
                  (probabilities s)((row, col) \<mapsto> (replicate (nat (grid_size s)) 0)[j := 1]),
                clamped := insert (row, col) (clamped s)\<rparr>"
proof -
  from assms obtain probs where p: "py_set (py_repeat 0 (grid_size s)) (v - 1) 1 = Inr probs"
    and s': "s' = s\<lparr>probabilities := (probabilities s)((row, col) \<mapsto> probs),
                clamped := insert (row, col) (clamped s)\<rparr>"
    by (auto simp: set_clue_def rbind_Inr_iff)
  from p obtain j where "slot (py_repeat (0::real) (grid_size s)) (v - 1) = Inr j"
    and probs: "probs = (py_repeat 0 (grid_size s))[j := 1]"
    by (auto simp: py_set_def rbind_Inr_iff)
  then have "j < nat (grid_size s)" "probs = (replicate (nat (grid_size s)) 0)[j := 1]"
    by (auto simp: slot_def py_repeat_def split: if_splits)
  with s' that show thesis by blast
qed

lemma sum_list_update_real:
  "i < length xs \<Longrightarrow> sum_list (xs[i := x]) = sum_list xs - xs ! i + (x::real)"
proof (induction xs arbitrary: i)
  case Nil
  then show ?case by simp
next
  case (Cons a xs)
  then show ?case by (cases i) auto
qed

lemma normalized_one_hot: "j < m \<Longrightarrow> normalized ((replicate m 0)[j := 1])"
  by (auto simp: normalized_def sum_list_update_real sum_list_replicate
      dest!: set_update_subset_insert [THEN subsetD])

lemma step_frame:
  assumes "step s = Inr (s', mc)"
  shows "grid_size s' = grid_size s \<and> clamped s' = clamped s \<and>
         convergence_threshold s' = convergence_threshold s \<and>
         inhibition_strength s' = inhibition_strength s"
  using assms by (auto simp: step_def rbind_Inr_iff split: if_splits)

lemma step_well_formed:
  assumes wf: "well_formed s"
  shows "\<exists>s' mc. step s = Inr (s', mc) \<and> well_formed s' \<and> grid_size s' = grid_size s \<and>
           clamped s' = clamped s \<and>
           (\<forall>cell\<in>set (grid_cells (grid_size s)).
               cell \<in> clamped s \<longrightarrow> probabilities s' cell = probabilities s cell)"
proof (cases "is_converged s")
  case True
  then show ?thesis using wf by (simp add: step_def)
next
  case False
  from step_ok [OF wf False] obtain m' mc where r:
    "step s = Inr (s\<lparr>probabilities := m', iteration := iteration s + 1,
                                  is_converged := mc < convergence_threshold s\<rparr>, mc)"
    "\<forall>k\<in>set (grid_cells (grid_size s)). k \<in> clamped s \<longrightarrow> m' k = probabilities s k"
    "\<forall>k\<in>set (grid_cells (grid_size s)). k \<notin> clamped s \<longrightarrow>
           (\<exists>d. calculate_new_probabilities s (fst k) (snd k) = Inr d \<and> m' k = Some d)"
    by blast
  have "\<forall>k\<in>set (grid_cells (grid_size s)).
          \<exists>d. m' k = Some d \<and> int (length d) = grid_size s"
  proof
    fix k
    assume k: "k \<in> set (grid_cells (grid_size s))"
    show "\<exists>d. m' k = Some d \<and> int (length d) = grid_size s"
    proof (cases "k \<in> clamped s")
    case True
    with r(2) k have "m' k = probabilities s k" by blast
    moreover from wf k obtain d where "probabilities s k = Some d" "int (length d) = grid_size s"
      by (rule well_formedD)
    ultimately show ?thesis by simp
  next
    case False
    with r(3) k obtain d where d: "calculate_new_probabilities s (fst k) (snd k) = Inr d"
        "m' k = Some d"
      by blast
    from k have "(fst k, snd k) \<in> set (grid_cells (grid_size s))" by simp
    from calculate_new_probabilities_normalized [OF wf this] d
    show ?thesis by auto
  qed
  qed
  then have "well_formed (s\<lparr>probabilities := m', iteration := iteration s + 1,
                                  is_converged := mc < convergence_threshold s\<rparr>)"
    by (simp add: well_formed_iff)
  with r(1,2) show ?thesis by auto
qed

lemma invariantD:
  "invariant n s \<Longrightarrow> probabilities s cell = Some d \<Longrightarrow> int (length d) = n \<and> normalized d"
  unfolding invariant_def by blast

lemma invariant_same_probabilities:
  "invariant n s \<Longrightarrow> probabilities s' = probabilities s \<Longrightarrow> grid_size s' = grid_size s
     \<Longrightarrow> invariant n s'"
  unfolding invariant_def well_formed_iff by auto

lemma invariant_initialize:
  assumes "invariant n s" "0 < n" "initialize s = Inr s'"
  shows "invariant n s'"
  using assms
  by (auto simp: invariant_def initialize_eq well_formed_iff length_uniform normalized_uniform
      split: if_splits)

lemma invariant_step:
  assumes inv: "invariant n s" and n: "0 < n" and st: "step s = Inr (s', mc)"
  shows "invariant n s'"
proof (cases "is_converged s")
  case True
  with st inv show ?thesis by (simp add: step_def)
next
  case False
  have wf: "well_formed s" and gs: "grid_size s = n"
    using inv by (auto simp: invariant_def)
  from step_well_formed [OF wf] st have wf': "well_formed s'" and gs': "grid_size s' = n"
    using gs by auto
  from step_ok [OF wf False] st obtain m' where r:
    "s' = s\<lparr>probabilities := m', iteration := iteration s + 1,
                                  is_converged := mc < convergence_threshold s\<rparr>"
    "\<forall>k. k \<notin> set (grid_cells (grid_size s)) \<longrightarrow> m' k = None"
    "\<forall>k\<in>set (grid_cells (grid_size s)). k \<in> clamped s \<longrightarrow> m' k = probabilities s k"
    "\<forall>k\<in>set (grid_cells (grid_size s)). k \<notin> clamped s \<longrightarrow>
           (\<exists>d. calculate_new_probabilities s (fst k) (snd k) = Inr d \<and> m' k = Some d)"
    by auto
  have "int (length d) = n \<and> normalized d" if kd: "probabilities s' k = Some d" for k d
  proof -
    from kd r(1) have m: "m' k = Some d" by simp
    with r(2) have k: "k \<in> set (grid_cells (grid_size s))"
      by (metis option.distinct(1))
    show ?thesis
    proof (cases "k \<in> clamped s")
      case True
      with r(3) k m have "probabilities s k = Some d" by force
      with inv show ?thesis by (rule invariantD)
    next
      case False
      with r(4) k m have d: "calculate_new_probabilities s (fst k) (snd k) = Inr d"
        by force
      from k have "(fst k, snd k) \<in> set (grid_cells (grid_size s))" by simp
      from calculate_new_probabilities_normalized [OF wf this] d gs
      show ?thesis by auto
    qed
  qed
  with wf' gs' show ?thesis by (auto simp: invariant_def)
qed

lemma reachable_invariant:
  assumes "reachable n s" and n: "0 < n"
  shows "invariant n s"
  using assms(1)
proof (induction rule: reachable.induct)
  case (constructed s)
  then show ?case
    using n
    by (auto simp: NetworkSettling_def initialize_eq invariant_def well_formed_iff
        length_uniform normalized_uniform split: if_splits)
next
  case (after_initialize s s')
  then show ?case using n by (auto intro: invariant_initialize)
next
  case (after_reset s s')
  have "invariant n (s\<lparr>clamped := {}\<rparr>)"
    using after_reset.IH by (rule invariant_same_probabilities) simp_all
  with after_reset.hyps(2) show ?case
    using n by (auto simp: reset_def intro: invariant_initialize)
next
  case (after_set_clue s row col v s')
  from after_set_clue.hyps(2) obtain j where j: "j < nat (grid_size s)"
    and s': "s' = s\<lparr>probabilities :=
                  (probabilities s)((row, col) \<mapsto> (replicate (nat (grid_size s)) 0)[j := 1]),
                clamped := insert (row, col) (clamped s)\<rparr>"
    by (rule set_clue_Inr)
  show ?case
    using after_set_clue.IH j n
    by (auto simp: s' invariant_def well_formed_iff normalized_one_hot split: option.splits)
next
  case (after_remove_clue s row col s')
  then show ?case
    using n
    by (auto simp: remove_clue_def py_div_def invariant_def well_formed_iff rbind_Inr_iff
        length_uniform normalized_uniform uniform_def [symmetric] split: if_splits option.splits)
next
  case (after_set_inhibition_strength s strength)
  from after_set_inhibition_strength.IH show ?case
    by (rule invariant_same_probabilities) (simp_all add: set_inhibition_strength_def)
next
  case (after_step s s' max_change)
  then show ?case using n by (auto intro: invariant_step)
qed

text \<open>In particular every state such an engine can reach is well formed, so the
  properties below that are stated for well-formed states hold of it.\<close>

lemma reachable_well_formed: "reachable n s \<Longrightarrow> 0 < n \<Longrightarrow> well_formed s"
  using reachable_invariant [of n s] unfolding invariant_def by blast

section \<open>Running the engine on concrete grids\<close>

lemma py_range_2: "py_range 2 = [0, 1]"
  by (simp add: py_range_def upto_rec1)

lemma py_range_4: "py_range 4 = [0, 1, 2, 3]"
  by (simp add: py_range_def upto_rec1)

text \<open>With this congruence rule the simplifier runs a sequence of calls in program
  order: it evaluates the first call before it looks at what follows.\<close>

lemma rbind_weak_cong: "m = m' \<Longrightarrow> rbind m f = rbind m' f"
  by simp

lemmas run_simps = NetworkSettling_def initialize_def reset_def set_inhibition_strength_def
  py_div_def grid_cells_def py_repeat_def set_clue_def remove_clue_def py_set_def py_get_def
  slot_def
  step_def calculate_new_probabilities_def lookup_def is_value_impossible_def
  calculate_inhibition_def get_most_likely_value_def normalize_def calculate_change_def
  Let_def eval_nat_numeral

section \<open>The value 0 as a clue\<close>

lemma replicate_last_update:
  "0 < m \<Longrightarrow> (replicate m (0::real))[m - Suc 0 := 1] = replicate (m - Suc 0) 0 @ [1]"
proof -
  assume "0 < m"
  then have "replicate m (0::real) = replicate (m - Suc 0) 0 @ [0]"
    by (cases m) (simp_all add: replicate_append_same)
  then show ?thesis
    by (simp add: list_update_append)
qed

text \<open>
  Claim C10. For a cell of the grid, \<^verbatim>\<open>set_clue(row, col, 0)\<close> does not raise: the index
  \<open>0 - 1\<close> counts from the end of the list, so the last slot receives 1. The call
  returns the very state \<^verbatim>\<open>set_clue(row, col, grid_size)\<close> returns: the cell is one-hot
  at the highest value and belongs to the clamped set.
\<close>

theorem set_clue_zero_clamps_highest_value:
  assumes "(row, col) \<in> set (grid_cells (grid_size s))"
  shows "set_clue s row col 0 = set_clue s row col (grid_size s) \<and>
         set_clue s row col 0 =
           Inr (s\<lparr>probabilities :=
                    (probabilities s)((row, col) \<mapsto> replicate (nat (grid_size s) - 1) 0 @ [1]),
                  clamped := insert (row, col) (clamped s)\<rparr>)"
proof -
  have n: "0 < grid_size s"
    using assms by (auto simp: in_grid_cells)
  then have idx: "nat (grid_size s - 1) = nat (grid_size s) - 1"
    by simp
  have "py_set (py_repeat (0::real) (grid_size s)) (0 - 1) 1 =
          Inr (replicate (nat (grid_size s) - 1) 0 @ [1])"
    using n by (simp add: py_set_def slot_def py_repeat_def idx replicate_last_update)
  moreover have "py_set (py_repeat (0::real) (grid_size s)) (grid_size s - 1) 1 =
          Inr (replicate (nat (grid_size s) - 1) 0 @ [1])"
    using n by (simp add: py_set_def slot_def py_repeat_def idx replicate_last_update)
  ultimately show ?thesis
    by (simp add: set_clue_def)
qed

text \<open>On a fresh 2 by 2 engine, the clue 0 in cell \<open>(1, 0)\<close> gives the distribution
  \<open>[0, 1]\<close>, as the clue 2 does.\<close>

theorem set_clue_zero_witness:
  "\<exists>s. NetworkSettling 2 = Inr s \<and> (1, 0) \<in> set (grid_cells (grid_size s)) \<and>
       set_clue s 1 0 0 = set_clue s 1 0 2 \<and>
       set_clue s 1 0 0 =
         Inr (s\<lparr>probabilities := (probabilities s)((1, 0) \<mapsto> [0, 1]),
                clamped := {(1, 0)}\<rparr>)"
proof -
  have "\<exists>s. NetworkSettling 2 = Inr s \<and> (1, 0) \<in> set (grid_cells (grid_size s)) \<and>
          grid_size s = 2 \<and> clamped s = {}"
    by (simp add: run_simps py_range_2 cong: rbind_weak_cong)
  then obtain s where s: "NetworkSettling 2 = Inr s" "(1, 0) \<in> set (grid_cells (grid_size s))"
      "grid_size s = 2" "clamped s = {}"
    by blast
  from set_clue_zero_clamps_highest_value [OF s(2)] s show ?thesis
    by (auto simp: numeral_2_eq_2)
qed

section \<open>Calls before the engine exists\<close>

text \<open>
  Claim C9. While the global engine is \<^verbatim>\<open>None\<close>, each of the module-level functions
  \<^verbatim>\<open>set_clue\<close>, \<^verbatim>\<open>remove_clue\<close>, \<^verbatim>\<open>step\<close>, \<^verbatim>\<open>reset\<close>, \<^verbatim>\<open>set_inhibition\<close> and
  \<^verbatim>\<open>get_state\<close> returns the error object with the message
  \<^verbatim>\<open>Network not initialized\<close>; it raises nothing, and the global is still \<^verbatim>\<open>None\<close>
  afterwards.
\<close>

theorem calls_before_create_report_error:
  "set_clue_call None row col v = (Inr (Error_reply ''Network not initialized''), None) \<and>
   remove_clue_call None row col = (Inr (Error_reply ''Network not initialized''), None) \<and>
   step_call None = (Inr (Error_reply ''Network not initialized''), None) \<and>
   reset_call None = (Inr (Error_reply ''Network not initialized''), None) \<and>
   set_inhibition None strength = (Inr (Error_reply ''Network not initialized''), None) \<and>
   get_state None = (Inr (Error_reply ''Network not initialized''), None)"
  by (simp add: set_clue_call_def remove_clue_call_def step_call_def reset_call_def
      set_inhibition_def get_state_def)

section \<open>The convergence flag\<close>

lemma steps_converged: "is_converged s \<Longrightarrow> steps k s = Inr s"
  by (induction k) (simp_all add: step_def)

text \<open>
  Claim C6. Once the convergence flag is set, \<^verbatim>\<open>step\<close> returns 0.0 and the state it
  leaves is the state it found, however often it is called: distributions, iteration
  counter, clamped set and flag are as they were. \<^verbatim>\<open>set_clue\<close>, \<^verbatim>\<open>remove_clue\<close> and
  \<^verbatim>\<open>set_inhibition_strength\<close> leave the flag set as well; only \<^verbatim>\<open>initialize\<close> (and
  \<^verbatim>\<open>reset\<close>, which calls it) assigns \<open>False\<close> to it.
\<close>

theorem converged_step_changes_nothing:
  assumes "is_converged s"
  shows "step s = Inr (s, 0) \<and> steps k s = Inr s \<and>
         (\<forall>row col v s'. set_clue s row col v = Inr s' \<longrightarrow> is_converged s') \<and>
         (\<forall>row col s'. remove_clue s row col = Inr s' \<longrightarrow> is_converged s') \<and>
         (\<forall>strength. is_converged (set_inhibition_strength s strength))"
  using assms
  by (auto simp: step_def steps_converged set_clue_def remove_clue_def
      set_inhibition_strength_def rbind_Inr_iff)

text \<open>A fresh 2 by 2 engine converges in its first round (nothing distinguishes its
  cells); three more rounds leave that state as it is.\<close>

theorem converged_step_witness:
  "\<exists>s max_change. rbind (NetworkSettling 2) step = Inr (s, max_change) \<and> is_converged s \<and>
      step s = Inr (s, 0) \<and> steps 3 s = Inr s"
proof -
  have "\<exists>s max_change. rbind (NetworkSettling 2) step = Inr (s, max_change) \<and> is_converged s"
    by (simp add: run_simps py_range_2 cong: rbind_weak_cong)
  then obtain s max_change where s: "rbind (NetworkSettling 2) step = Inr (s, max_change)"
      "is_converged s"
    by blast
  from converged_step_changes_nothing [OF s(2), of 3] s show ?thesis
    by blast
qed

section \<open>Removing a clue from a cell that has none\<close>

text \<open>
  Claim C1, as amended. On a cell that is not clamped, \<^verbatim>\<open>remove_clue\<close> raises nothing
  (the grid size of an engine is never zero) and leaves the clamped set, the iteration
  counter, the convergence flag, both parameters and every other cell's distribution as
  they were; but it stores the uniform distribution in the cell itself. So the call
  leaves the state unchanged exactly when the cell's distribution was uniform already.
\<close>

theorem remove_clue_unclamped_resets_the_cell:
  assumes "(row, col) \<notin> clamped s" and "grid_size s \<noteq> 0"
  shows "remove_clue s row col =
           Inr (s\<lparr>probabilities := (probabilities s)((row, col) \<mapsto> uniform (grid_size s))\<rparr>) \<and>
         (remove_clue s row col = Inr s \<longleftrightarrow>
            probabilities s (row, col) = Some (uniform (grid_size s)))"
proof -
  have 1: "remove_clue s row col =
           Inr (s\<lparr>probabilities := (probabilities s)((row, col) \<mapsto> uniform (grid_size s))\<rparr>)"
    using assms by (simp add: remove_clue_def py_div_def uniform_def)
  have "s\<lparr>probabilities := (probabilities s)((row, col) \<mapsto> uniform (grid_size s))\<rparr> = s \<longleftrightarrow>
          (probabilities s)((row, col) \<mapsto> uniform (grid_size s)) = probabilities s"
    by (cases s) simp
  also have "\<dots> \<longleftrightarrow> probabilities s (row, col) = Some (uniform (grid_size s))"
    by (auto simp: fun_eq_iff)
  finally show ?thesis
    using 1 by simp
qed

text \<open>The claim as it was stated fails: on a 2 by 2 engine with the clue 1 in cell
  \<open>(0, 0)\<close>, one round gives the unclamped cell \<open>(0, 1)\<close> the distribution \<open>[0, 1]\<close>, and
  \<^verbatim>\<open>remove_clue(0, 1)\<close> then replaces it by \<open>[1/2, 1/2]\<close>.\<close>

theorem remove_clue_unclamped_counterexample:
  "\<exists>s s'.
      rbind (rbind (NetworkSettling 2) (\<lambda>s. set_clue s 0 0 1)) step = Inr (s, 1 / 2) \<and>
      (0, 1) \<notin> clamped s \<and> probabilities s (0, 1) = Some [0, 1] \<and>
      remove_clue s 0 1 = Inr s' \<and> probabilities s' (0, 1) = Some [1 / 2, 1 / 2] \<and> s' \<noteq> s"
proof -
  have "\<exists>s s'.
      rbind (rbind (NetworkSettling 2) (\<lambda>s. set_clue s 0 0 1)) step = Inr (s, 1 / 2) \<and>
      (0, 1) \<notin> clamped s \<and> probabilities s (0, 1) = Some [0, 1] \<and>
      remove_clue s 0 1 = Inr s' \<and> probabilities s' (0, 1) = Some [1 / 2, 1 / 2]"
    by (simp add: run_simps py_range_2 cong: rbind_weak_cong)
  then show ?thesis
    by fastforce
qed

theorem remove_clue_unclamped_witness:
  "\<exists>s.
      rbind (rbind (NetworkSettling 2) (\<lambda>s. set_clue s 0 0 1)) step = Inr (s, 1 / 2) \<and>
      (0, 1) \<notin> clamped s \<and> grid_size s \<noteq> 0 \<and>
      remove_clue s 0 1 = Inr (s\<lparr>probabilities := (probabilities s)((0, 1) \<mapsto> [1 / 2, 1 / 2])\<rparr>)"
proof -
  have "\<exists>s.
      rbind (rbind (NetworkSettling 2) (\<lambda>s. set_clue s 0 0 1)) step = Inr (s, 1 / 2) \<and>
      (0, 1) \<notin> clamped s \<and> grid_size s = 2"
    by (simp add: run_simps py_range_2 cong: rbind_weak_cong)
  then obtain s where s:
      "rbind (rbind (NetworkSettling 2) (\<lambda>s. set_clue s 0 0 1)) step = Inr (s, 1 / 2)"
      "(0, 1) \<notin> clamped s" "grid_size s = 2"
    by blast
  then have "grid_size s \<noteq> 0" by simp
  from remove_clue_unclamped_resets_the_cell [OF s(2) this] s show ?thesis
    by (auto simp: uniform_def py_repeat_def numeral_2_eq_2)
qed

section \<open>Reset\<close>

lemma reachable_fields:
  assumes "reachable n s"
  shows "grid_size s = n \<and> n \<noteq> 0 \<and> convergence_threshold s = 1 / 1000"
  using assms
proof (induction rule: reachable.induct)
  case (constructed s)
  then show ?case
    by (auto simp: NetworkSettling_def initialize_def py_div_def rbind_Inr_iff split: if_splits)
next
  case (after_initialize s s')
  then show ?case
    by (auto simp: initialize_def py_div_def rbind_Inr_iff split: if_splits)
next
  case (after_reset s s')
  then show ?case
    by (auto simp: reset_def initialize_def py_div_def rbind_Inr_iff split: if_splits)
next
  case (after_set_clue s row col v s')
  then show ?case
    by (auto simp: set_clue_def rbind_Inr_iff)
next
  case (after_remove_clue s row col s')
  then show ?case
    by (auto simp: remove_clue_def rbind_Inr_iff)
next
  case (after_set_inhibition_strength s strength)
  then show ?case
    by (simp add: set_inhibition_strength_def)
next
  case (after_step s s' max_change)
  then show ?case
    using step_frame [of s s' max_change] by simp
qed

text \<open>
  Claim C2, as amended. In every state an engine constructed with grid size \<open>n\<close> can
  reach, \<^verbatim>\<open>reset\<close> returns, and the state it leaves is the freshly constructed engine of
  that size (uniform distributions in every cell of the grid, empty clamped set,
  iteration 0, flag false, threshold 0.001) but for two fields: the inhibition strength
  keeps the value it had, and a distribution stored under a coordinate outside the grid
  stays.
\<close>

theorem reset_restores_construction_except_strength:
  assumes "reachable n s"
  shows "\<exists>fresh. NetworkSettling n = Inr fresh \<and>
           reset s =
             Inr (fresh\<lparr>inhibition_strength := inhibition_strength s,
                        probabilities :=
                          (\<lambda>cell. if cell \<in> set (grid_cells n) then probabilities fresh cell
                                  else probabilities s cell)\<rparr>)"
proof -
  from reachable_fields [OF assms]
  have f: "grid_size s = n" "n \<noteq> 0" "convergence_threshold s = 1 / 1000"
    by simp_all
  define fresh where "fresh = \<lparr>grid_size = n,
      probabilities = (\<lambda>cell. if cell \<in> set (grid_cells n) then Some (uniform n) else None),
      clamped = {}, iteration = 0, convergence_threshold = 1 / 1000,
      inhibition_strength = 1 / 2, is_converged = False\<rparr>"
  have 1: "NetworkSettling n = Inr fresh"
    using f(2) by (simp add: NetworkSettling_def initialize_eq fresh_def cong: if_cong)
  have 2: "reset s =
             Inr (fresh\<lparr>inhibition_strength := inhibition_strength s,
                        probabilities :=
                          (\<lambda>cell. if cell \<in> set (grid_cells n) then probabilities fresh cell
                                  else probabilities s cell)\<rparr>)"
    using f by (cases s) (simp add: reset_def initialize_eq fresh_def cong: if_cong)
  from 1 2 show ?thesis by blast
qed

text \<open>The claim as it was stated fails: after \<^verbatim>\<open>set_inhibition_strength(1.0)\<close> a reset
  leaves the strength at 1, where the constructor sets 0.5.\<close>

theorem reset_restores_construction_counterexample:
  "\<exists>fresh s'. NetworkSettling 2 = Inr fresh \<and>
      reset (set_inhibition_strength fresh 1) = Inr s' \<and>
      inhibition_strength fresh = 1 / 2 \<and> inhibition_strength s' = 1 \<and> s' \<noteq> fresh"
proof -
  have "\<exists>fresh s'. NetworkSettling 2 = Inr fresh \<and>
      reset (set_inhibition_strength fresh 1) = Inr s' \<and>
      inhibition_strength fresh = 1 / 2 \<and> inhibition_strength s' = 1"
    by (simp add: run_simps py_range_2 cong: rbind_weak_cong)
  then show ?thesis
    by fastforce
qed

theorem reset_restores_construction_witness:
  "\<exists>fresh. NetworkSettling 2 = Inr fresh \<and>
      reachable 2 (set_inhibition_strength fresh 1) \<and>
      reset (set_inhibition_strength fresh 1) = Inr (fresh\<lparr>inhibition_strength := 1\<rparr>)"
proof -
  have "\<exists>fresh. NetworkSettling 2 = Inr fresh"
    by (simp add: run_simps py_range_2 cong: rbind_weak_cong)
  then obtain fresh where fresh: "NetworkSettling 2 = Inr fresh"
    by blast
  then have r: "reachable 2 (set_inhibition_strength fresh 1)"
    by (intro reachable.after_set_inhibition_strength reachable.constructed)
  from reset_restores_construction_except_strength [OF r] fresh
  have "reset (set_inhibition_strength fresh 1) =
          Inr (fresh\<lparr>inhibition_strength := inhibition_strength (set_inhibition_strength fresh 1),
                        probabilities :=
                          (\<lambda>cell. if cell \<in> set (grid_cells 2) then probabilities fresh cell
                                  else probabilities (set_inhibition_strength fresh 1) cell)\<rparr>)"
    by simp
  also have "\<dots> = Inr (fresh\<lparr>inhibition_strength := 1\<rparr>)"
    by (simp add: set_inhibition_strength_def cong: if_cong)
  finally show ?thesis
    using fresh r by blast
qed

section \<open>Normalization\<close>

text \<open>
  Claim C5. In every state an engine with a positive grid size can reach by
  \<^verbatim>\<open>initialize\<close>, \<^verbatim>\<open>reset\<close>, \<^verbatim>\<open>set_clue\<close>, \<^verbatim>\<open>remove_clue\<close>,
  \<^verbatim>\<open>set_inhibition_strength\<close> and \<^verbatim>\<open>step\<close> calls that return, every stored distribution
  has non-negative entries that sum to one. (Floats are exact reals here, so the sum is
  one exactly.)
\<close>

theorem reachable_distributions_normalized:
  assumes "0 < n" and "reachable n s" and "probabilities s cell = Some d"
  shows "(\<forall>p\<in>set d. 0 \<le> p) \<and> sum_list d = 1"
proof -
  from assms(2,1) have "invariant n s"
    by (rule reachable_invariant)
  from invariantD [OF this assms(3)] show ?thesis
    by (simp add: normalized_def)
qed

theorem reachable_distributions_witness:
  "\<exists>fresh s1 s. NetworkSettling 2 = Inr fresh \<and> set_clue fresh 0 0 1 = Inr s1 \<and>
      step s1 = Inr (s, 1 / 2) \<and> reachable 2 s \<and>
      probabilities s (0, 1) = Some [0, 1] \<and> normalized [0, 1]"
proof -
  have "\<exists>fresh s1 s. NetworkSettling 2 = Inr fresh \<and> set_clue fresh 0 0 1 = Inr s1 \<and>
      step s1 = Inr (s, 1 / 2) \<and> probabilities s (0, 1) = Some [0, 1]"
    by (simp add: run_simps py_range_2 cong: rbind_weak_cong)
  then obtain fresh s1 s where run: "NetworkSettling 2 = Inr fresh"
      "set_clue fresh 0 0 1 = Inr s1" "step s1 = Inr (s, 1 / 2)"
      "probabilities s (0, 1) = Some [0, 1]"
    by blast
  have r: "reachable 2 s"
    using run(1,2,3) by (blast intro: reachable.intros)
  have "(0::int) < 2" by simp
  from reachable_distributions_normalized [OF this r run(4)]
  have "normalized [0, 1]"
    by (simp add: normalized_def)
  with run r show ?thesis by blast
qed

section \<open>Clamped cells\<close>

text \<open>
  Claim C4. On a well-formed state, any number \<open>k\<close> of \<^verbatim>\<open>step\<close> calls returns, and a
  clamped cell of the grid has afterwards the distribution it had before, and is still
  clamped.
\<close>

theorem clamped_cell_unchanged_by_steps:
  assumes "well_formed s" and "cell \<in> clamped s"
    and "cell \<in> set (grid_cells (grid_size s))"
  shows "\<exists>s'. steps k s = Inr s' \<and> probabilities s' cell = probabilities s cell \<and>
           cell \<in> clamped s'"
  using assms
proof (induction k arbitrary: s)
  case 0
  then show ?case by simp
next
  case (Suc k)
  from step_well_formed [OF Suc.prems(1)] obtain s1 mc where s1:
    "step s = Inr (s1, mc)" "well_formed s1" "grid_size s1 = grid_size s"
    "clamped s1 = clamped s"
    "\<forall>cell\<in>set (grid_cells (grid_size s)).
               cell \<in> clamped s \<longrightarrow> probabilities s1 cell = probabilities s cell"
    by blast
  have same: "probabilities s1 cell = probabilities s cell"
    using s1(5) Suc.prems(2,3) by blast
  from Suc.IH [of s1] s1 Suc.prems obtain s' where
    "steps k s1 = Inr s'" "probabilities s' cell = probabilities s1 cell" "cell \<in> clamped s'"
    by auto
  with s1(1) same show ?case by simp
qed

theorem clamped_cell_unchanged_witness:
  "\<exists>s s'. rbind (NetworkSettling 2) (\<lambda>s. set_clue s 0 0 1) = Inr s \<and> steps 3 s = Inr s' \<and>
      probabilities s (0, 0) = Some [1, 0] \<and> probabilities s' (0, 0) = Some [1, 0] \<and>
      (0, 0) \<in> clamped s'"
proof -
  have "\<exists>s. rbind (NetworkSettling 2) (\<lambda>s. set_clue s 0 0 1) = Inr s \<and> well_formed s \<and>
          (0, 0) \<in> clamped s \<and> (0, 0) \<in> set (grid_cells (grid_size s)) \<and>
          probabilities s (0, 0) = Some [1, 0]"
    by (simp add: run_simps py_range_2 well_formed_def cong: rbind_weak_cong)
  then obtain s where s: "rbind (NetworkSettling 2) (\<lambda>s. set_clue s 0 0 1) = Inr s"
      "well_formed s" "(0, 0) \<in> clamped s" "(0, 0) \<in> set (grid_cells (grid_size s))"
      "probabilities s (0, 0) = Some [1, 0]"
    by blast
  from clamped_cell_unchanged_by_steps [OF s(2,3,4), of 3] s(1,5) show ?thesis
    by auto
qed

section \<open>The validity check\<close>

text \<open>The index \<open>most_likely_index\<close> is a position of the distribution, the
  distribution takes its maximum there, and every earlier entry is smaller: it is the
  first index achieving the maximum.\<close>

lemma most_likely_index_less:
  assumes "d \<noteq> []"
  shows "most_likely_index d < length d"
proof -
  define n where "n = length (takeWhile (\<lambda>p. p \<noteq> Max (set d)) d)"
  have "Max (set d) \<in> set d"
    using assms by (intro Max_in) auto
  then have "\<not> (\<forall>p\<in>set d. p \<noteq> Max (set d))"
    by blast
  then have neq: "takeWhile (\<lambda>p. p \<noteq> Max (set d)) d \<noteq> d"
    by (simp add: takeWhile_eq_all_conv)
  have le: "n \<le> length d"
    unfolding n_def by (rule length_takeWhile_le)
  have tk: "takeWhile (\<lambda>p. p \<noteq> Max (set d)) d = take n d"
    unfolding n_def by (rule takeWhile_eq_take)
  have "n \<noteq> length d"
  proof
    assume "n = length d"
    then have "take n d = d" by simp
    with tk neq show False by simp
  qed
  with le show ?thesis
    by (simp add: most_likely_index_def n_def)
qed

lemma most_likely_index_first:
  assumes "d \<noteq> []"
  shows "d ! most_likely_index d = Max (set d) \<and>
         (\<forall>j<most_likely_index d. d ! j < Max (set d))"
proof -
  have less: "most_likely_index d < length d"
    using assms by (rule most_likely_index_less)
  then have "\<not> (d ! most_likely_index d \<noteq> Max (set d))"
    unfolding most_likely_index_def by (rule nth_length_takeWhile)
  moreover have "d ! j < Max (set d)" if "j < most_likely_index d" for j
  proof -
    have j: "j < length (takeWhile (\<lambda>p. p \<noteq> Max (set d)) d)"
      using that by (simp add: most_likely_index_def)
    then have "takeWhile (\<lambda>p. p \<noteq> Max (set d)) d ! j \<in> set (takeWhile (\<lambda>p. p \<noteq> Max (set d)) d)"
      by (rule nth_mem)
    then have "takeWhile (\<lambda>p. p \<noteq> Max (set d)) d ! j \<noteq> Max (set d)"
      by (rule set_takeWhileD [THEN conjunct2])
    then have "d ! j \<noteq> Max (set d)"
      using j by (simp add: takeWhile_nth)
    moreover have "d ! j \<le> Max (set d)"
      using that less by (intro Max_ge) auto
    ultimately show ?thesis by simp
  qed
  ultimately show ?thesis by blast
qed

lemma row_pass_eq:
  assumes "\<forall>col\<in>set cols. \<exists>d. probabilities s (row, col) = Some d \<and> d \<noteq> []"
  shows "row_pass s row cols seen =
           Inr ((\<forall>col\<in>set cols. 0.9 \<le> most_likely_probability s (row, col)) \<and>
                distinct (map (\<lambda>col. most_likely_value s (row, col)) cols) \<and>
                (\<forall>col\<in>set cols. most_likely_value s (row, col) \<notin> seen))"
  using assms
proof (induction cols arbitrary: seen)
  case Nil
  then show ?case by simp
next
  case (Cons col cols)
  from Cons.prems obtain d where d: "probabilities s (row, col) = Some d" "d \<noteq> []"
    by auto
  have g: "get_most_likely_value s row col =
           Inr \<lparr>likely_value = most_likely_value s (row, col),
                likely_probability = most_likely_probability s (row, col)\<rparr>"
    using get_most_likely_value_eq [OF d]
    by (simp add: most_likely_value_def most_likely_probability_def d)
  have IH: "row_pass s row cols seen' =
           Inr ((\<forall>col\<in>set cols. 0.9 \<le> most_likely_probability s (row, col)) \<and>
                distinct (map (\<lambda>col. most_likely_value s (row, col)) cols) \<and>
                (\<forall>col\<in>set cols. most_likely_value s (row, col) \<notin> seen'))" for seen'
    using Cons.prems by (intro Cons.IH) auto
  show ?case
    by (auto simp: g IH image_iff)
qed

lemma column_pass_eq:
  assumes "\<forall>row\<in>set rows. \<exists>d. probabilities s (row, col) = Some d \<and> d \<noteq> []"
  shows "column_pass s col rows seen =
           Inr (distinct (map (\<lambda>row. most_likely_value s (row, col)) rows) \<and>
                (\<forall>row\<in>set rows. most_likely_value s (row, col) \<notin> seen))"
  using assms
proof (induction rows arbitrary: seen)
  case Nil
  then show ?case by simp
next
  case (Cons row rows)
  from Cons.prems obtain d where d: "probabilities s (row, col) = Some d" "d \<noteq> []"
    by auto
  have g: "get_most_likely_value s row col =
           Inr \<lparr>likely_value = most_likely_value s (row, col),
                likely_probability = most_likely_probability s (row, col)\<rparr>"
    using get_most_likely_value_eq [OF d]
    by (simp add: most_likely_value_def most_likely_probability_def d)
  have IH: "column_pass s col rows seen' =
           Inr (distinct (map (\<lambda>row. most_likely_value s (row, col)) rows) \<and>
                (\<forall>row\<in>set rows. most_likely_value s (row, col) \<notin> seen'))" for seen'
    using Cons.prems by (intro Cons.IH) auto
  show ?case
    by (auto simp: g IH image_iff)
qed

lemma every_line_eq:
  assumes "\<forall>i\<in>set js. inner i = Inr (P i)"
  shows "every_line inner js = Inr (\<forall>i\<in>set js. P i)"
  using assms by (induction js) auto

text \<open>
  Claim C8. On a well-formed state \<^verbatim>\<open>is_valid_solution\<close> raises nothing and returns true
  if and only if in every row the most likely values (first index achieving the maximum,
  plus one) are pairwise distinct and every cell's maximum probability is at least 0.9,
  and in every column the most likely values are pairwise distinct.
\<close>

theorem is_valid_solution_meets_specification:
  assumes "well_formed s"
  shows "is_valid_solution s = Inr (valid_solution_spec s)"
proof -
  have nonempty: "\<exists>d. probabilities s (row, col) = Some d \<and> d \<noteq> []"
    if "row \<in> set (py_range (grid_size s))" "col \<in> set (py_range (grid_size s))" for row col
  proof -
    from that have cell: "(row, col) \<in> set (grid_cells (grid_size s))"
      by (simp add: in_grid_cells in_py_range)
    from assms cell obtain d where "probabilities s (row, col) = Some d"
        "int (length d) = grid_size s"
      by (rule well_formedD)
    moreover have "0 < grid_size s"
      using that by (auto simp: in_py_range)
    ultimately show ?thesis by auto
  qed
  have "\<forall>row\<in>set (py_range (grid_size s)).
          row_pass s row (py_range (grid_size s)) {} =
            Inr ((\<forall>col\<in>set (py_range (grid_size s)).
                     0.9 \<le> most_likely_probability s (row, col)) \<and>
                 distinct (map (\<lambda>col. most_likely_value s (row, col))
                   (py_range (grid_size s))) \<and>
                 (\<forall>col\<in>set (py_range (grid_size s)).
                     most_likely_value s (row, col) \<notin> {}))"
  proof
    fix row
    assume "row \<in> set (py_range (grid_size s))"
    then have "\<forall>col\<in>set (py_range (grid_size s)).
                 \<exists>d. probabilities s (row, col) = Some d \<and> d \<noteq> []"
      using nonempty by blast
    then show "row_pass s row (py_range (grid_size s)) {} =
            Inr ((\<forall>col\<in>set (py_range (grid_size s)).
                     0.9 \<le> most_likely_probability s (row, col)) \<and>
                 distinct (map (\<lambda>col. most_likely_value s (row, col))
                   (py_range (grid_size s))) \<and>
                 (\<forall>col\<in>set (py_range (grid_size s)).
                     most_likely_value s (row, col) \<notin> {}))"
      by (rule row_pass_eq)
  qed
  note rows = every_line_eq [OF this]
  have "\<forall>col\<in>set (py_range (grid_size s)).
          column_pass s col (py_range (grid_size s)) {} =
            Inr (distinct (map (\<lambda>row. most_likely_value s (row, col))
                   (py_range (grid_size s))) \<and>
                 (\<forall>row\<in>set (py_range (grid_size s)).
                     most_likely_value s (row, col) \<notin> {}))"
  proof
    fix col
    assume "col \<in> set (py_range (grid_size s))"
    then have "\<forall>row\<in>set (py_range (grid_size s)).
                 \<exists>d. probabilities s (row, col) = Some d \<and> d \<noteq> []"
      using nonempty by blast
    then show "column_pass s col (py_range (grid_size s)) {} =
            Inr (distinct (map (\<lambda>row. most_likely_value s (row, col))
                   (py_range (grid_size s))) \<and>
                 (\<forall>row\<in>set (py_range (grid_size s)).
                     most_likely_value s (row, col) \<notin> {}))"
      by (rule column_pass_eq)
  qed
  note cols = every_line_eq [OF this]
  show ?thesis
    by (simp add: is_valid_solution_def rows cols valid_solution_spec_def) blast
qed

text \<open>A 2 by 2 engine whose four cells are clamped to a Latin square is a valid
  solution.\<close>

theorem is_valid_solution_witness:
  "\<exists>s. rbind (rbind (rbind (rbind (NetworkSettling 2) (\<lambda>s. set_clue s 0 0 1))
                 (\<lambda>s. set_clue s 0 1 2)) (\<lambda>s. set_clue s 1 0 2)) (\<lambda>s. set_clue s 1 1 1) = Inr s \<and>
       well_formed s \<and> valid_solution_spec s \<and> is_valid_solution s = Inr True"
proof -
  have "\<exists>s. rbind (rbind (rbind (rbind (NetworkSettling 2) (\<lambda>s. set_clue s 0 0 1))
                 (\<lambda>s. set_clue s 0 1 2)) (\<lambda>s. set_clue s 1 0 2)) (\<lambda>s. set_clue s 1 1 1) = Inr s \<and>
       well_formed s \<and> valid_solution_spec s"
    by (simp add: run_simps py_range_2 well_formed_def valid_solution_spec_def
        most_likely_value_def most_likely_index_def most_likely_probability_def
        cong: rbind_weak_cong)
  then obtain s where s: "rbind (rbind (rbind (rbind (NetworkSettling 2) (\<lambda>s. set_clue s 0 0 1))
                 (\<lambda>s. set_clue s 0 1 2)) (\<lambda>s. set_clue s 1 0 2)) (\<lambda>s. set_clue s 1 1 1) = Inr s"
      "well_formed s" "valid_solution_spec s"
    by blast
  from is_valid_solution_meets_specification [OF s(2)] s show ?thesis
    by auto
qed

section \<open>Impossible values\<close>

text \<open>A clue in the range 1 to \<open>grid_size\<close> is the value \<^verbatim>\<open>get_most_likely_value\<close>
  reports for the cell afterwards: the clamped value that \<^verbatim>\<open>is_value_impossible\<close> reads
  is the clue.\<close>

lemma most_likely_index_one_hot:
  assumes "j < m"
  shows "most_likely_index ((replicate m 0)[j := 1]) = j"
proof -
  have d: "(replicate m (0::real))[j := 1] = replicate j 0 @ 1 # replicate (m - Suc j) 0"
    using assms by (simp add: upd_conv_take_nth_drop min_def)
  have mx: "Max (set (replicate j (0::real) @ 1 # replicate (m - Suc j) 0)) = 1"
    by (rule Max_eqI) auto
  have "takeWhile (\<lambda>p. p \<noteq> 1) (replicate j (0::real) @ 1 # replicate (m - Suc j) 0) =
          replicate j 0 @ takeWhile (\<lambda>p. p \<noteq> 1) (1 # replicate (m - Suc j) 0)"
    by (rule takeWhile_append2) simp
  then have "length (takeWhile (\<lambda>p. p \<noteq> 1)
                 (replicate j (0::real) @ 1 # replicate (m - Suc j) 0)) = j"
    by simp
  then show ?thesis
    unfolding most_likely_index_def d mx .
qed

lemma set_clue_most_likely_value:
  assumes "1 \<le> v" and "v \<le> grid_size s" and "set_clue s row col v = Inr s'"
  shows "most_likely_value s' (row, col) = v \<and> (row, col) \<in> clamped s'"
proof -
  have "py_set (py_repeat (0::real) (grid_size s)) (v - 1) 1 =
          Inr ((replicate (nat (grid_size s)) 0)[nat (v - 1) := 1])"
    using assms(1,2) by (simp add: py_set_def slot_def py_repeat_def)
  with assms(3) have "s' = s\<lparr>probabilities :=
       (probabilities s)((row, col) \<mapsto> (replicate (nat (grid_size s)) 0)[nat (v - 1) := 1]),
       clamped := insert (row, col) (clamped s)\<rparr>"
    by (simp add: set_clue_def)
  moreover have "nat (v - 1) < nat (grid_size s)"
    using assms(1,2) by simp
  ultimately show ?thesis
    using assms(1) by (simp add: most_likely_value_def most_likely_index_one_hot)
qed

text \<open>
  Claim C3, as amended. Let the state be well formed and not converged, let cell A be a
  clamped cell of the grid whose value (its most likely value, which is the clue for a
  one-hot distribution) is \<open>x\<close>, and let B be an unclamped cell of the grid in A's row or
  column. Then \<^verbatim>\<open>step\<close> returns, and the update of B sets slot \<open>x - 1\<close> to 0 before it
  normalizes. If the updated entries do not sum to 0, B's probability for \<open>x\<close> is 0 after
  the step; if they do, B gets the uniform distribution instead.
\<close>

theorem clamped_value_excluded_from_peers:
  assumes wf: "well_formed s" and run: "\<not> is_converged s"
    and a: "(row_a, col_a) \<in> clamped s" "(row_a, col_a) \<in> set (grid_cells (grid_size s))"
    and x: "most_likely_value s (row_a, col_a) = x"
    and b: "(row_b, col_b) \<notin> clamped s" "(row_b, col_b) \<in> set (grid_cells (grid_size s))"
    and peer: "row_b = row_a \<or> col_b = col_a"
  shows "\<exists>s' max_change current u d.
           step s = Inr (s', max_change) \<and>
           probabilities s (row_b, col_b) = Some current \<and>
           update_values s row_b col_b current (py_range (grid_size s)) current = Inr u \<and>
           u ! nat (x - 1) = 0 \<and>
           probabilities s' (row_b, col_b) = Some d \<and>
           (if sum_list u = 0 then d = uniform (grid_size s) else d ! nat (x - 1) = 0)"
proof -
  have ne: "(row_b, col_b) \<noteq> (row_a, col_a)"
    using a(1) b(1) by auto
  from wf a(2) obtain da where da: "probabilities s (row_a, col_a) = Some da"
      "int (length da) = grid_size s"
    by (rule well_formedD)
  have n: "0 < grid_size s"
    using a(2) by (auto simp: in_grid_cells)
  then have "da \<noteq> []"
    using da(2) by auto
  then have "most_likely_index da < length da"
    by (rule most_likely_index_less)
  then have xr: "x - 1 \<in> set (py_range (grid_size s))"
    using x da by (auto simp: most_likely_value_def in_py_range)
  have imp: "impossible s row_b col_b (x - 1)"
  proof (cases "row_b = row_a")
    case True
    with ne have "col_a \<noteq> col_b" by auto
    moreover have "col_a \<in> set (py_range (grid_size s))"
      using a(2) by (simp add: in_grid_cells in_py_range)
    ultimately show ?thesis
      using a(1) x True by (auto simp: impossible_def)
  next
    case False
    with peer have c: "col_b = col_a" by simp
    with ne have "row_a \<noteq> row_b" by auto
    moreover have "row_a \<in> set (py_range (grid_size s))"
      using a(2) by (simp add: in_grid_cells in_py_range)
    ultimately show ?thesis
      using a(1) x c by (auto simp: impossible_def)
  qed
  from calculate_new_probabilities_ok [OF wf b(2)] obtain current u where cu:
    "probabilities s (row_b, col_b) = Some current"
    "update_values s row_b col_b current (py_range (grid_size s)) current = Inr u"
    "int (length u) = grid_size s"
    "\<forall>j\<in>set (py_range (grid_size s)). impossible s row_b col_b j \<longrightarrow> u ! nat j = 0"
    "calculate_new_probabilities s row_b col_b =
       Inr (if sum_list u = 0 then uniform (grid_size s) else map (\<lambda>p. p / sum_list u) u)"
    by blast
  have zero: "u ! nat (x - 1) = 0"
    using cu(4) xr imp by blast
  from step_ok [OF wf run] obtain m' max_change where st:
    "step s = Inr (s\<lparr>probabilities := m', iteration := iteration s + 1,
                     is_converged := max_change < convergence_threshold s\<rparr>, max_change)"
    "\<forall>k\<in>set (grid_cells (grid_size s)). k \<notin> clamped s \<longrightarrow>
           (\<exists>d. calculate_new_probabilities s (fst k) (snd k) = Inr d \<and> m' k = Some d)"
    by blast
  from st(2) b have "\<exists>d. calculate_new_probabilities s row_b col_b = Inr d \<and>
      m' (row_b, col_b) = Some d"
    by force
  with cu(5) have m': "m' (row_b, col_b) =
      Some (if sum_list u = 0 then uniform (grid_size s) else map (\<lambda>p. p / sum_list u) u)"
    by simp
  have idx: "nat (x - 1) < length u"
    using xr cu(3) by (auto simp: in_py_range)
  have "if sum_list u = 0
        then (if sum_list u = 0 then uniform (grid_size s) else map (\<lambda>p. p / sum_list u) u)
               = uniform (grid_size s)
        else (if sum_list u = 0 then uniform (grid_size s) else map (\<lambda>p. p / sum_list u) u)
               ! nat (x - 1) = 0"
    using idx zero by simp
  with st(1) cu(1,2) zero m' show ?thesis
    by (intro exI conjI) (assumption | simp)+
qed

text \<open>The claim as it was stated fails in two ways. With the clues 1 in \<open>(0, 0)\<close> and 2
  in \<open>(1, 1)\<close> on a 2 by 2 grid, both values are impossible for cell \<open>(0, 1)\<close>, its update
  sums to 0 and \<^verbatim>\<open>normalize\<close> falls back to \<open>[1/2, 1/2]\<close>. And on an engine that has
  converged, a clue set afterwards has no effect on its peers: \<^verbatim>\<open>step\<close> returns at
  once.\<close>

theorem clamped_value_excluded_counterexample:
  "(\<exists>s s'. rbind (rbind (NetworkSettling 2) (\<lambda>s. set_clue s 0 0 1)) (\<lambda>s. set_clue s 1 1 2) = Inr s \<and>
       (0, 0) \<in> clamped s \<and> probabilities s (0, 0) = Some [1, 0] \<and> (0, 1) \<notin> clamped s \<and>
       \<not> is_converged s \<and>
       step s = Inr (s', 0) \<and> probabilities s' (0, 1) = Some [1 / 2, 1 / 2]) \<and>
   (\<exists>s0 s s'. rbind (NetworkSettling 2) step = Inr (s0, 0) \<and> set_clue s0 0 0 1 = Inr s \<and>
       (0, 0) \<in> clamped s \<and> probabilities s (0, 0) = Some [1, 0] \<and> (0, 1) \<notin> clamped s \<and>
       is_converged s \<and>
       step s = Inr (s', 0) \<and> probabilities s' (0, 1) = Some [1 / 2, 1 / 2])"
proof
  show "\<exists>s s'. rbind (rbind (NetworkSettling 2) (\<lambda>s. set_clue s 0 0 1)) (\<lambda>s. set_clue s 1 1 2) = Inr s \<and>
       (0, 0) \<in> clamped s \<and> probabilities s (0, 0) = Some [1, 0] \<and> (0, 1) \<notin> clamped s \<and>
       \<not> is_converged s \<and>
       step s = Inr (s', 0) \<and> probabilities s' (0, 1) = Some [1 / 2, 1 / 2]"
    by (simp add: run_simps py_range_2 cong: rbind_weak_cong)
  show "\<exists>s0 s s'. rbind (NetworkSettling 2) step = Inr (s0, 0) \<and> set_clue s0 0 0 1 = Inr s \<and>
       (0, 0) \<in> clamped s \<and> probabilities s (0, 0) = Some [1, 0] \<and> (0, 1) \<notin> clamped s \<and>
       is_converged s \<and>
       step s = Inr (s', 0) \<and> probabilities s' (0, 1) = Some [1 / 2, 1 / 2]"
    by (simp add: run_simps py_range_2 cong: rbind_weak_cong)
qed

theorem clamped_value_excluded_witness:
  "\<exists>s s'. rbind (NetworkSettling 2) (\<lambda>s. set_clue s 0 0 1) = Inr s \<and>
       well_formed s \<and> \<not> is_converged s \<and> (0, 0) \<in> clamped s \<and>
       most_likely_value s (0, 0) = 1 \<and> (0, 1) \<notin> clamped s \<and>
       step s = Inr (s', 1 / 2) \<and> probabilities s' (0, 1) = Some [0, 1]"
proof -
  have "\<exists>s. rbind (NetworkSettling 2) (\<lambda>s. set_clue s 0 0 1) = Inr s \<and>
       well_formed s \<and> \<not> is_converged s \<and> (0, 0) \<in> clamped s \<and>
       (0, 0) \<in> set (grid_cells (grid_size s)) \<and>
       most_likely_value s (0, 0) = 1 \<and> (0, 1) \<notin> clamped s \<and>
       (0, 1) \<in> set (grid_cells (grid_size s)) \<and> grid_size s = 2 \<and>
       probabilities s (0, 1) = Some [1 / 2, 1 / 2]"
    by (simp add: run_simps py_range_2 well_formed_def most_likely_value_def
        most_likely_index_def cong: rbind_weak_cong)
  then obtain s where s: "rbind (NetworkSettling 2) (\<lambda>s. set_clue s 0 0 1) = Inr s"
       "well_formed s" "\<not> is_converged s" "(0, 0) \<in> clamped s"
       "(0, 0) \<in> set (grid_cells (grid_size s))"
       "most_likely_value s (0, 0) = 1" "(0, 1) \<notin> clamped s"
       "(0, 1) \<in> set (grid_cells (grid_size s))" "grid_size s = 2"
       "probabilities s (0, 1) = Some [1 / 2, 1 / 2]"
    by blast
  have "(0::int) = 0 \<or> (1::int) = 0" by simp
  from clamped_value_excluded_from_peers [OF s(2,3,4,5,6,7,8) this]
  obtain s' max_change u d where r: "step s = Inr (s', max_change)"
    "update_values s 0 1 [1 / 2, 1 / 2] (py_range (grid_size s)) [1 / 2, 1 / 2] = Inr u"
    "u ! nat (1 - 1) = 0" "probabilities s' (0, 1) = Some d"
    "if sum_list u = 0 then d = uniform (grid_size s) else d ! nat (1 - 1) = 0"
    using s(10) by auto
  have "\<exists>s s'. rbind (NetworkSettling 2) (\<lambda>s. set_clue s 0 0 1) = Inr s \<and>
          step s = Inr (s', 1 / 2) \<and> probabilities s' (0, 1) = Some [0, 1]"
    by (simp add: run_simps py_range_2 cong: rbind_weak_cong)
  with s(1) r(1) have "max_change = 1 / 2" "probabilities s' (0, 1) = Some [0, 1]"
    by auto
  with s r(1) show ?thesis
    by auto
qed

section \<open>The scenario with two clues\<close>

text \<open>
  Claim C7. A fresh 4 by 4 engine, the clues \<^verbatim>\<open>set_clue(0, 0, 1)\<close> and
  \<^verbatim>\<open>set_clue(0, 1, 2)\<close>, one \<^verbatim>\<open>step\<close>: the call returns (with the change 1/4), and the
  cells \<open>(0, 2)\<close> and \<open>(0, 3)\<close> both hold \<open>[0, 0, 1/2, 1/2]\<close>: probability 0 in the slots
  0 and 1, and two equal entries that sum to one in the slots 2 and 3.
\<close>

theorem two_clues_scenario:
  "\<exists>s'. rbind (rbind (rbind (NetworkSettling 4) (\<lambda>s. set_clue s 0 0 1))
                  (\<lambda>s. set_clue s 0 1 2)) step = Inr (s', 1 / 4) \<and>
      probabilities s' (0, 2) = Some [0, 0, 1 / 2, 1 / 2] \<and>
      probabilities s' (0, 3) = Some [0, 0, 1 / 2, 1 / 2]"
  by (simp add: run_simps py_range_4 cong: rbind_weak_cong)

end
